theory Spec2Isabelle
  imports Complex_Main
begin

section \<open>JavaScript Numbers\<close>

text \<open>
  The component computes with JavaScript Numbers: the finite values of IEEE 754 binary64,
  the two infinities and \<open>NaN\<close>. A finite Number is modelled by the real number it
  denotes, and every arithmetic operation rounds its exact result to the nearest binary64
  value, ties to the even significand, as ECMAScript prescribes for \<open>+\<close>, \<open>-\<close>, \<open>*\<close> and
  \<open>/\<close>. The two zeros are one value here: they differ only under a division by zero or
  \<open>Object.is\<close>, and the component divides by the constant 6000 alone.
\<close>

datatype number = Finite real | PosInf | NegInf | NaN

text \<open>
  The binary exponent of a positive real: \<open>2 ^ expo x \<le> x < 2 ^ (expo x + 1)\<close>.
\<close>

function expo :: "real \<Rightarrow> int" where
  "expo x = (if x \<le> 0 then 0
             else if 2 \<le> x then expo (x / 2) + 1
             else if x < 1 then expo (2 * x) - 1
             else 0)"
  by pat_completeness auto
termination
proof (relation "measure (\<lambda>x. if 1 \<le> x then nat \<lfloor>log 2 x\<rfloor> else nat \<lceil>- log 2 x\<rceil>)")
  show "wf (measure (\<lambda>x::real. if 1 \<le> x then nat \<lfloor>log 2 x\<rfloor> else nat \<lceil>- log 2 x\<rceil>))"
    by simp
next
  fix x :: real
  assume "\<not> x \<le> 0" and x: "2 \<le> x"
  have l: "log 2 (x / 2) = log 2 x - 1" using x by (simp add: log_divide)
  have "1 \<le> log 2 x" using x by (simp add: le_log_iff)
  then have "1 \<le> \<lfloor>log 2 x\<rfloor>" by linarith
  moreover have "\<lfloor>log 2 x - 1\<rfloor> = \<lfloor>log 2 x\<rfloor> - 1" by linarith
  ultimately show "(x / 2, x) \<in> measure (\<lambda>x. if 1 \<le> x then nat \<lfloor>log 2 x\<rfloor> else nat \<lceil>- log 2 x\<rceil>)"
    using x by (simp add: l)
next
  fix x :: real
  assume p: "\<not> x \<le> 0" and "\<not> 2 \<le> x" and x: "x < 1"
  have l: "log 2 (2 * x) = 1 + log 2 x" using p by (simp add: log_mult)
  have neg: "log 2 x < 0" using p x by simp
  show "(2 * x, x) \<in> measure (\<lambda>x. if 1 \<le> x then nat \<lfloor>log 2 x\<rfloor> else nat \<lceil>- log 2 x\<rceil>)"
  proof (cases "1 \<le> 2 * x")
    case True
    have "log 2 (2 * x) < 1" using p x by (simp add: log_less_iff)
    moreover have "0 \<le> log 2 (2 * x)" using True by simp
    ultimately have "\<lfloor>log 2 (2 * x)\<rfloor> = 0" by linarith
    moreover have "1 \<le> \<lceil>- log 2 x\<rceil>" using neg by linarith
    ultimately show ?thesis using x True by simp
  next
    case False
    then have "log 2 (2 * x) < 0" using p by simp
    then have "1 < - log 2 x" using l by linarith
    then have "2 \<le> \<lceil>- log 2 x\<rceil>" by linarith
    moreover have "\<lceil>- log 2 (2 * x)\<rceil> = \<lceil>- log 2 x\<rceil> - 1" using l by simp linarith?
    ultimately show ?thesis using x False by simp
  qed
qed

text \<open>Rounding a real to the nearest integer, a tie to the even one.\<close>

definition rne :: "real \<Rightarrow> int" where
  "rne r =
     (let f = \<lfloor>r\<rfloor> in
      if r - of_int f < 1 / 2 then f
      else if 1 / 2 < r - of_int f then f + 1
      else if even f then f else f + 1)"

text \<open>
  Rounding a real to binary64. The significand has 53 bits, so the values around \<open>x\<close> are
  the multiples of \<open>2 ^ (e - 52)\<close> for the exponent \<open>e\<close> of \<open>x\<close>; below \<open>2 ^ - 1022\<close> the
  subnormal values are the multiples of \<open>2 ^ - 1074\<close>. A result of magnitude \<open>2 ^ 1024\<close>
  or more is an infinity. A numeric literal of the source denotes \<open>rnd\<close> of its decimal
  value; a literal that is a binary64 value itself is written \<open>Finite\<close>.
\<close>

definition rnd :: "real \<Rightarrow> number" where
  "rnd x =
     (let e = max (expo \<bar>x\<bar>) (- 1022);
          q = 2 powi (e - 52);
          y = of_int (rne (x / q)) * q
      in if 2 powi 1024 \<le> \<bar>y\<bar> then (if 0 < x then PosInf else NegInf) else Finite y)"

text \<open>The operators of the source: unary minus, \<open>+\<close>, \<open>-\<close>, \<open>*\<close>, \<open>/\<close> and \<open><\<close>.\<close>

fun fneg :: "number \<Rightarrow> number" where
  "fneg (Finite x) = Finite (- x)"
| "fneg PosInf = NegInf"
| "fneg NegInf = PosInf"
| "fneg NaN = NaN"

fun fadd :: "number \<Rightarrow> number \<Rightarrow> number" where
  "fadd NaN b = NaN"
| "fadd a NaN = NaN"
| "fadd (Finite x) (Finite y) = rnd (x + y)"
| "fadd PosInf NegInf = NaN"
| "fadd NegInf PosInf = NaN"
| "fadd PosInf b = PosInf"
| "fadd NegInf b = NegInf"
| "fadd a PosInf = PosInf"
| "fadd a NegInf = NegInf"

definition fsub :: "number \<Rightarrow> number \<Rightarrow> number" where
  "fsub a b = fadd a (fneg b)"

fun fmul :: "number \<Rightarrow> number \<Rightarrow> number" where
  "fmul NaN b = NaN"
| "fmul a NaN = NaN"
| "fmul (Finite x) (Finite y) = rnd (x * y)"
| "fmul (Finite x) PosInf = (if x = 0 then NaN else if 0 < x then PosInf else NegInf)"
| "fmul (Finite x) NegInf = (if x = 0 then NaN else if 0 < x then NegInf else PosInf)"
| "fmul PosInf (Finite y) = (if y = 0 then NaN else if 0 < y then PosInf else NegInf)"
| "fmul NegInf (Finite y) = (if y = 0 then NaN else if 0 < y then NegInf else PosInf)"
| "fmul PosInf PosInf = PosInf"
| "fmul PosInf NegInf = NegInf"
| "fmul NegInf PosInf = NegInf"
| "fmul NegInf NegInf = PosInf"

fun fdiv :: "number \<Rightarrow> number \<Rightarrow> number" where
  "fdiv NaN b = NaN"
| "fdiv a NaN = NaN"
| "fdiv (Finite x) (Finite y) =
     (if y = 0 then (if x = 0 then NaN else if 0 < x then PosInf else NegInf)
      else rnd (x / y))"
| "fdiv (Finite x) b = Finite 0"
| "fdiv PosInf (Finite y) = (if 0 \<le> y then PosInf else NegInf)"
| "fdiv NegInf (Finite y) = (if 0 \<le> y then NegInf else PosInf)"
| "fdiv a b = NaN"

fun fless :: "number \<Rightarrow> number \<Rightarrow> bool" where
  "fless NaN b = False"
| "fless a NaN = False"
| "fless (Finite x) (Finite y) = (x < y)"
| "fless (Finite x) PosInf = True"
| "fless (Finite x) NegInf = False"
| "fless PosInf b = False"
| "fless NegInf NegInf = False"
| "fless NegInf b = True"

text \<open>\<open>Math.min\<close> of two Numbers.\<close>

fun fmin :: "number \<Rightarrow> number \<Rightarrow> number" where
  "fmin NaN b = NaN"
| "fmin a NaN = NaN"
| "fmin a b = (if fless b a then b else a)"

text \<open>
  A Number is between two reals when it is finite and its value is; it is near a real
  when it is finite and within the given distance of it. A real is a binary64 value when
  rounding leaves it as it is.
\<close>

definition between :: "number \<Rightarrow> real \<Rightarrow> real \<Rightarrow> bool" where
  "between a lo hi = (case a of Finite y \<Rightarrow> lo \<le> y \<and> y \<le> hi | _ \<Rightarrow> False)"

definition near :: "number \<Rightarrow> real \<Rightarrow> real \<Rightarrow> bool" where
  "near a x eps = between a (x - eps) (x + eps)"

definition binary64 :: "real \<Rightarrow> bool" where
  "binary64 x \<longleftrightarrow> rnd x = Finite x"

text \<open>
  \<open>Math.sin\<close> is a function of the host. ECMAScript fixes its value at \<open>NaN\<close>, at the
  infinities and at zero, and leaves the rest to the implementation as an approximation
  of the sine. The model takes it to be any function with these values whose result is
  finite and within \<open>2 ^ - 53\<close> of the sine, which an implementation with an error below
  one unit in the last place satisfies. \<open>Math.PI\<close> is the binary64 value nearest to \<open>\<pi>\<close>.
\<close>

definition sin_spec :: "(number \<Rightarrow> number) \<Rightarrow> bool" where
  "sin_spec f \<longleftrightarrow>
     f NaN = NaN \<and> f PosInf = NaN \<and> f NegInf = NaN \<and> f (Finite 0) = Finite 0 \<and>
     (\<forall>x. near (f (Finite x)) (sin x) (2 powi (- 53)))"

definition Math_sin :: "number \<Rightarrow> number" where
  "Math_sin = (SOME f. sin_spec f)"

definition Math_PI :: number where
  "Math_PI = rnd pi"

section \<open>Coordinates and constants\<close>

text \<open>A coordinate is the two-element array \<open>[lat, lng]\<close>.\<close>

type_synonym coord = "number \<times> number"

definition INDIA_COORD :: coord where
  "INDIA_COORD = (rnd 13.054864947131488, rnd 80.2241185689344)"

definition ARGENTINA_COORD :: coord where
  "ARGENTINA_COORD = (rnd (- 34.58419557192974), rnd (- 58.39822695799831))"

definition MAX_DELIVERIES :: nat where
  "MAX_DELIVERIES = 5"

section \<open>The interpolator\<close>

text \<open>
  \<^verbatim>\<open>function lerp(a, b, t) { return a + (b - a) * t; }\<close>, the same in both component
  files.
\<close>

definition lerp :: "number \<Rightarrow> number \<Rightarrow> number \<Rightarrow> number" where
  "lerp a b t = fadd a (fmul (fsub b a) t)"

text \<open>
  The interpolator of the specification. The source has no function of this name: the
  computation is written out in \<open>step\<close>, between the computation of \<open>t\<close> and the test
  \<open>t < 1\<close>, and its two results are what \<open>step\<close> passes to \<open>setMovingPosition\<close> and
  \<open>setMovingScale\<close> (lemma \<open>step_stores\<close> below).
\<close>

definition interpolate :: "coord \<Rightarrow> coord \<Rightarrow> number \<Rightarrow> coord \<times> number" where
  "interpolate from to t =
     (let lat = lerp (fst from) (fst to) t;
          lng = lerp (snd from) (snd to) t;
          scaleValue = fadd (Finite 1) (fmul (rnd 0.6) (Math_sin (fmul Math_PI t)))
      in ((lat, lng), scaleValue))"

section \<open>The component state\<close>

text \<open>
  A trip is the closure of one call of \<open>animateBucket\<close>: its arguments and the
  \<open>start\<close> time read from \<open>performance.now()\<close>. The callback \<open>step\<close> of that call is
  determined by it.
\<close>

record trip =
  trip_from :: coord
  trip_to :: coord
  durationMs :: number
  start :: number

text \<open>
  The six \<open>useState\<close> cells and the \<open>useRef\<close> cell of \<open>App\<close>, together with the part of
  the browser the component talks to: the list of animation-frame callbacks that are
  scheduled (each with the handle \<open>requestAnimationFrame\<close> returned for it) and the
  next handle to hand out.
\<close>

record app =
  movingPosition :: "coord option"
  showIdle :: bool
  deliveredMarkers :: "coord list"
  isAnimating :: bool
  movingScale :: number
  deliveredCount :: nat
  animRef :: "nat option"
  frames :: "(nat \<times> trip) list"
  nextHandle :: nat

text \<open>The two \<open>window.alert\<close> messages of \<open>handleOrderClick\<close>, in the order of the code.\<close>

datatype notice = CapReached | NoneWaiting

definition initial :: app where
  "initial =
     \<lparr> movingPosition = None, showIdle = True, deliveredMarkers = [],
       isAnimating = False, movingScale = Finite 1, deliveredCount = 0,
       animRef = None, frames = [], nextHandle = 1 \<rparr>"

section \<open>The operations\<close>

text \<open>
  \<open>requestAnimationFrame(step)\<close> appends the callback to the browser's list and returns
  a fresh non-zero handle.
\<close>

definition requestAnimationFrame :: "trip \<Rightarrow> app \<Rightarrow> nat \<times> app" where
  "requestAnimationFrame cb s =
     (nextHandle s,
      s\<lparr>frames := frames s @ [(nextHandle s, cb)], nextHandle := Suc (nextHandle s)\<rparr>)"

text \<open>
  The callback \<open>step(now)\<close> of a trip. The state setters are applied in the order of the
  source; the updater passed to \<open>setDeliveredCount\<close> sets \<open>showIdle\<close> from the
  incremented count and returns it. \<open>durationMs\<close> is 6000 at the only call of
  \<open>animateBucket\<close>.
\<close>

definition step :: "trip \<Rightarrow> number \<Rightarrow> app \<Rightarrow> app" where
  "step tr now s =
     (let elapsed = fsub now (start tr);
          t = fmin (Finite 1) (fdiv elapsed (durationMs tr));
          lat = lerp (fst (trip_from tr)) (fst (trip_to tr)) t;
          lng = lerp (snd (trip_from tr)) (snd (trip_to tr)) t;
          s1 = s\<lparr>movingPosition := Some (lat, lng)\<rparr>;
          scaleValue = fadd (Finite 1) (fmul (rnd 0.6) (Math_sin (fmul Math_PI t)));
          s2 = s1\<lparr>movingScale := scaleValue\<rparr>
      in if fless t (Finite 1) then
           (let (h, s3) = requestAnimationFrame tr s2 in s3\<lparr>animRef := Some h\<rparr>)
         else
           (let s3 = s2\<lparr>animRef := None\<rparr>;
                s4 = s3\<lparr>isAnimating := False\<rparr>;
                s5 = s4\<lparr>deliveredMarkers := deliveredMarkers s4 @ [trip_to tr]\<rparr>;
                next = deliveredCount s5 + 1;
                s6 = (if next < MAX_DELIVERIES then s5\<lparr>showIdle := True\<rparr>
                      else s5\<lparr>showIdle := False\<rparr>);
                s7 = s6\<lparr>deliveredCount := next\<rparr>;
                s8 = s7\<lparr>movingPosition := None\<rparr>
            in s8\<lparr>movingScale := Finite 1\<rparr>))"

text \<open>\<open>animateBucket({from, to, durationMs})\<close>, called when the clock reads \<open>clock\<close>.\<close>

definition animateBucket :: "coord \<Rightarrow> coord \<Rightarrow> number \<Rightarrow> number \<Rightarrow> app \<Rightarrow> app" where
  "animateBucket from to duration clock s =
     (let s1 = s\<lparr>movingPosition := Some from\<rparr>;
          s2 = s1\<lparr>movingScale := Finite 1\<rparr>;
          s3 = s2\<lparr>isAnimating := True\<rparr>;
          cb = \<lparr>trip_from = from, trip_to = to, durationMs = duration, start = clock\<rparr>;
          (h, s4) = requestAnimationFrame cb s3
      in s4\<lparr>animRef := Some h\<rparr>)"

text \<open>
  \<open>handleOrderClick\<close>, with its three guards in the order of the source. The result
  pairs the alert shown, if any, with the state after the call.
\<close>

definition handleOrderClick :: "number \<Rightarrow> app \<Rightarrow> notice option \<times> app" where
  "handleOrderClick clock s =
     (if deliveredCount s \<ge> MAX_DELIVERIES then (Some CapReached, s)
      else if isAnimating s then (None, s)
      else if \<not> showIdle s then (Some NoneWaiting, s)
      else (None, animateBucket INDIA_COORD ARGENTINA_COORD (Finite 6000) clock
                    (s\<lparr>showIdle := False\<rparr>)))"

text \<open>
  A repaint at time \<open>now\<close>: the browser takes the scheduled callbacks, empties the list
  and calls each of them with \<open>now\<close>; a callback scheduled meanwhile waits for the next
  repaint.
\<close>

definition frame :: "number \<Rightarrow> app \<Rightarrow> app" where
  "frame now s = fold (\<lambda>(h, cb). step cb now) (frames s) (s\<lparr>frames := []\<rparr>)"

text \<open>
  The events of a session: a dispatch request (the handler runs when the clock reads the
  given time) and a repaint. Each event runs to its end before the next one, and the
  handler of the next event sees the state the previous one left. The button is disabled
  while \<open>isAnimating\<close> holds; a request is modelled as a call of the handler all the same,
  which has its own guard. Unmounting the component ends the session and is not an event
  of it.
\<close>

datatype event = Click number | Frame number

fun exec :: "event \<Rightarrow> app \<Rightarrow> notice option \<times> app" where
  "exec (Click clock) s = handleOrderClick clock s"
| "exec (Frame now) s = (None, frame now s)"

fun run :: "event list \<Rightarrow> app \<Rightarrow> app" where
  "run [] s = s"
| "run (e # es) s = run es (snd (exec e s))"

fun alerts :: "event list \<Rightarrow> app \<Rightarrow> notice option list" where
  "alerts [] s = []"
| "alerts (e # es) s = fst (exec e s) # alerts es (snd (exec e s))"

text \<open>
  The three states of the delivery tracker, read off the component state: a trip is
  active while \<open>isAnimating\<close> holds; otherwise the tracker is exhausted when the count has
  reached the cap and idle below it.
\<close>

datatype tracker = Idle | InFlight | Exhausted

definition tracker_state :: "app \<Rightarrow> tracker" where
  "tracker_state s =
     (if isAnimating s then InFlight
      else if deliveredCount s \<ge> MAX_DELIVERIES then Exhausted
      else Idle)"

text \<open>
  The states a session reaches: the state of the freshly mounted component, and the state
  after any event in a state already reached.
\<close>

inductive reachable :: "app \<Rightarrow> bool" where
  mounted: "reachable initial"
| after_event: "reachable s \<Longrightarrow> reachable (snd (exec e s))"

text \<open>
  The progress \<open>t\<close> that \<open>step\<close> computes for a trip at a repaint, and the test of \<open>step\<close>
  for the trip that the handler starts at \<open>clock\<close>: the repaint at \<open>now\<close> ends that trip
  when \<open>t < 1\<close> fails.
\<close>

definition progress :: "trip \<Rightarrow> number \<Rightarrow> number" where
  "progress tr now = fmin (Finite 1) (fdiv (fsub now (start tr)) (durationMs tr))"

definition arrived :: "number \<Rightarrow> number \<Rightarrow> bool" where
  "arrived clock now \<longleftrightarrow>
     \<not> fless (fmin (Finite 1) (fdiv (fsub now clock) (Finite 6000))) (Finite 1)"

text \<open>
  A completed dispatch: a dispatch request at \<open>clock\<close>, the repaints \<open>mids\<close> that find
  the trip on its way, and the repaint \<open>arrival\<close> that ends it.
\<close>

fun completed_dispatch :: "number \<times> number list \<times> number \<Rightarrow> event list" where
  "completed_dispatch (clock, mids, arrival) = Click clock # map Frame mids @ [Frame arrival]"

fun completes :: "number \<times> number list \<times> number \<Rightarrow> bool" where
  "completes (clock, mids, arrival) \<longleftrightarrow>
     list_all (\<lambda>now. \<not> arrived clock now) mids \<and> arrived clock arrival"

text \<open>What \<open>alert\<close> shows for each event once the cap is reached.\<close>

fun rejected :: "event \<Rightarrow> notice option" where
  "rejected (Click clock) = Some CapReached"
| "rejected (Frame now) = None"

text \<open>The trip that \<open>handleOrderClick\<close> starts when the clock reads \<open>clock\<close>.\<close>

definition order_trip :: "number \<Rightarrow> trip" where
  "order_trip clock =
     \<lparr>trip_from = INDIA_COORD, trip_to = ARGENTINA_COORD, durationMs = Finite 6000, start = clock\<rparr>"

definition in_flight :: "number \<Rightarrow> app \<Rightarrow> bool" where
  "in_flight clock s \<longleftrightarrow> isAnimating s \<and> map snd (frames s) = [order_trip clock]"

text \<open>
  A repaint at \<open>now\<close> ends a trip when a scheduled callback takes the second branch of
  \<open>step\<close>, the one of the arrival.
\<close>

definition ends_trip :: "number \<Rightarrow> app \<Rightarrow> bool" where
  "ends_trip now s = list_ex (\<lambda>(h, cb). \<not> fless (progress cb now) (Finite 1)) (frames s)"

text \<open>Five completed dispatches, some with repaints on the way.\<close>

definition five_trips :: "(number \<times> number list \<times> number) list" where
  "five_trips =
     [(Finite 0, [Finite 16, Finite 5999], Finite 6000),
      (Finite 6500, [], Finite 12500),
      (Finite 13000, [Finite 13016], Finite 19001),
      (Finite 20000, [], Finite 26000),
      (Finite 27000, [Finite 27016.75, Finite 30000], Finite 33000.5)]"

text \<open>
  Two states of sample sessions: a trip on its way after one repaint, and the state after
  the five dispatches above.
\<close>

definition on_the_way :: app where
  "on_the_way = run [Click (Finite 0), Frame (Finite 16)] initial"

definition exhausted_sample :: app where
  "exhausted_sample = run (concat (map completed_dispatch five_trips)) initial"

text \<open>The facts that hold of every state a session reaches, collected for the proofs.\<close>

definition consistent :: "app \<Rightarrow> bool" where
  "consistent s \<longleftrightarrow>
     length (deliveredMarkers s) = deliveredCount s \<and>
     deliveredMarkers s = replicate (deliveredCount s) ARGENTINA_COORD \<and>
     deliveredCount s \<le> MAX_DELIVERIES \<and>
     showIdle s = (\<not> isAnimating s \<and> deliveredCount s < MAX_DELIVERIES) \<and>
     (movingPosition s \<noteq> None) = isAnimating s \<and>
     (isAnimating s \<or> movingScale s = Finite 1) \<and>
     (\<not> isAnimating s \<or> deliveredCount s < MAX_DELIVERIES) \<and>
     (frames s \<noteq> []) = isAnimating s \<and>
     length (frames s) \<le> 1 \<and>
     animRef s = (case frames s of [] \<Rightarrow> None | (h, cb) # rest \<Rightarrow> Some h) \<and>
     list_all (\<lambda>(h, cb). 0 < h \<and> h < nextHandle s \<and> trip_from cb = INDIA_COORD \<and>
                 trip_to cb = ARGENTINA_COORD \<and> durationMs cb = Finite 6000) (frames s) \<and>
     0 < nextHandle s"

section \<open>Rounding\<close>

declare expo.simps [simp del]

lemma expo_bounds:
  assumes "0 < x"
  shows "2 powi (expo x) \<le> x \<and> x < 2 powi (expo x + 1)"
  using assms
proof (induction x rule: expo.induct)
  case (1 x)
  show ?case
  proof (cases "2 \<le> x")
    case True
    with 1 have ih: "2 powi (expo (x / 2)) \<le> x / 2 \<and> x / 2 < 2 powi (expo (x / 2) + 1)"
      by simp
    have e: "expo x = expo (x / 2) + 1" using True 1 by (subst expo.simps) simp
    show ?thesis using ih by (simp add: e power_int_add)
  next
    case False
    show ?thesis
    proof (cases "x < 1")
      case True
      with 1 False have ih: "2 powi (expo (2 * x)) \<le> 2 * x \<and> 2 * x < 2 powi (expo (2 * x) + 1)"
        by simp
      have e: "expo x = expo (2 * x) - 1" using True False 1 by (subst expo.simps) simp
      show ?thesis using ih by (simp add: e power_int_add power_int_diff)
    next
      case b: False
      have e: "expo x = 0" using b False 1 by (subst expo.simps) simp
      show ?thesis using b False by (simp add: e)
    qed
  qed
qed

lemma rne_error: "\<bar>of_int (rne r) - r\<bar> \<le> 1 / 2"
proof -
  have f: "of_int \<lfloor>r\<rfloor> \<le> r" "r < of_int \<lfloor>r\<rfloor> + 1" by linarith+
  show ?thesis
  proof (cases "r - of_int \<lfloor>r\<rfloor> < 1 / 2")
    case True
    then have "rne r = \<lfloor>r\<rfloor>" by (simp add: rne_def Let_def)
    with True f show ?thesis by simp
  next
    case False
    show ?thesis
    proof (cases "1 / 2 < r - of_int \<lfloor>r\<rfloor>")
      case True
      with False have "rne r = \<lfloor>r\<rfloor> + 1" by (simp add: rne_def Let_def)
      with True f show ?thesis by simp
    next
      case h: False
      with False have d: "r - of_int \<lfloor>r\<rfloor> = 1 / 2" by simp
      have "rne r = \<lfloor>r\<rfloor> \<or> rne r = \<lfloor>r\<rfloor> + 1" by (auto simp: rne_def Let_def)
      with d show ?thesis by auto
    qed
  qed
qed

lemma rne_cases: "rne r = \<lfloor>r\<rfloor> \<or> rne r = \<lfloor>r\<rfloor> + 1 \<and> of_int \<lfloor>r\<rfloor> < r"
  by (auto simp: rne_def Let_def)

lemma rne_bound:
  assumes "\<bar>r\<bar> \<le> of_int N"
  shows "\<bar>rne r\<bar> \<le> N"
proof -
  from assms have a: "r \<le> of_int N" "- of_int N \<le> r" by simp_all
  from a(1) have u: "\<lfloor>r\<rfloor> \<le> N" by (simp add: floor_le_iff) linarith?
  from a(2) have l: "- N \<le> \<lfloor>r\<rfloor>" by (simp add: le_floor_iff)
  from rne_cases [of r] show ?thesis
  proof
    assume "rne r = \<lfloor>r\<rfloor>"
    with u l show ?thesis by simp
  next
    assume c: "rne r = \<lfloor>r\<rfloor> + 1 \<and> of_int \<lfloor>r\<rfloor> < r"
    with a(1) have "real_of_int \<lfloor>r\<rfloor> < of_int N" by linarith
    then have "\<lfloor>r\<rfloor> < N" by simp
    with c l show ?thesis by simp
  qed
qed

lemma expo_eqI:
  assumes "2 powi e \<le> x" and "x < 2 powi (e + 1)"
  shows "expo x = e"
proof -
  have "(0::real) < 2 powi e" by simp
  with assms(1) have p: "0 < x" by linarith
  note b = expo_bounds [OF p]
  have 1: "e < expo x + 1"
  proof (rule ccontr)
    assume "\<not> e < expo x + 1"
    then have "expo x + 1 \<le> e" by simp
    then have "(2::real) powi (expo x + 1) \<le> 2 powi e" by (rule power_int_increasing) simp
    with assms(1) b show False by linarith
  qed
  have 2: "expo x < e + 1"
  proof (rule ccontr)
    assume "\<not> expo x < e + 1"
    then have "e + 1 \<le> expo x" by simp
    then have "(2::real) powi (e + 1) \<le> 2 powi (expo x)" by (rule power_int_increasing) simp
    with assms(2) b show False by linarith
  qed
  from 1 2 show ?thesis by simp
qed

lemma expo_0: "expo 0 = 0"
  by (simp add: expo.simps)

lemma rnd_0: "rnd 0 = Finite 0"
  by (simp add: rnd_def rne_def expo_0)

lemma expo_le:
  assumes "x \<noteq> 0" and "\<bar>x\<bar> \<le> 2 powi k"
  shows "expo \<bar>x\<bar> \<le> k"
proof (rule ccontr)
  assume "\<not> expo \<bar>x\<bar> \<le> k"
  then have "k + 1 \<le> expo \<bar>x\<bar>" by simp
  then have "(2::real) powi (k + 1) \<le> 2 powi (expo \<bar>x\<bar>)" by (rule power_int_increasing) simp
  moreover have "(2::real) powi k < 2 powi (k + 1)" by (rule power_int_strict_increasing) simp_all
  moreover have "2 powi (expo \<bar>x\<bar>) \<le> \<bar>x\<bar>" using expo_bounds [of "\<bar>x\<bar>"] assms(1) by simp
  ultimately show False using assms(2) by linarith
qed

text \<open>
  The error of one rounding: a real of magnitude at most \<open>2 ^ k\<close>, for an exponent \<open>k\<close>
  of the binary64 range, rounds to a finite value within \<open>2 ^ (k - 53)\<close> of it.
\<close>

lemma rnd_error:
  assumes k: "- 1022 \<le> k" "k \<le> 1023" and x: "\<bar>x\<bar> \<le> 2 powi k"
  shows "\<exists>y. rnd x = Finite y \<and> \<bar>y - x\<bar> \<le> 2 powi (k - 53) \<and> \<bar>y\<bar> \<le> 2 powi k"
proof (cases "x = 0")
  case True
  then show ?thesis by (simp add: rnd_0)
next
  case False
  define e where "e = max (expo \<bar>x\<bar>) (- 1022)"
  define q :: real where "q = 2 powi (e - 52)"
  define y where "y = of_int (rne (x / q)) * q"
  have ek: "e \<le> k" using expo_le [OF False x] k(1) by (simp add: e_def)
  have q0: "0 < q" by (simp add: q_def)
  have "\<bar>y - x\<bar> = q * \<bar>of_int (rne (x / q)) - x / q\<bar>"
    using q0 by (simp add: y_def abs_mult field_simps)
  also have "\<dots> \<le> q * (1 / 2)"
    using q0 rne_error [of "x / q"] by (intro mult_left_mono) simp_all
  also have "\<dots> = 2 powi (e - 53)"
    by (simp add: q_def power_int_diff)
  also have "\<dots> \<le> 2 powi (k - 53)"
    using ek by (intro power_int_increasing) simp_all
  finally have err: "\<bar>y - x\<bar> \<le> 2 powi (k - 53)" .
  define n where "n = nat (k - e + 52)"
  have n: "int n = k - e + 52" using ek by (simp add: n_def)
  have pk: "(2::real) powi k = of_int (2 ^ n) * q"
  proof -
    have "(2::real) powi k = 2 powi (int n + (e - 52))" using n by simp
    also have "\<dots> = 2 powi (int n) * 2 powi (e - 52)" by (rule power_int_add) simp
    finally show ?thesis by (simp add: q_def)
  qed
  have "\<bar>x / q\<bar> \<le> of_int (2 ^ n)"
    using x q0 by (simp add: pk field_simps)
  then have "\<bar>rne (x / q)\<bar> \<le> 2 ^ n" by (rule rne_bound)
  then have "\<bar>real_of_int (rne (x / q))\<bar> \<le> real_of_int (2 ^ n)"
    by (metis of_int_abs of_int_le_iff)
  then have "\<bar>y\<bar> \<le> of_int (2 ^ n) * q"
    using q0 by (simp add: y_def abs_mult mult_right_mono)
  then have yk: "\<bar>y\<bar> \<le> 2 powi k" by (simp add: pk)
  have "(2::real) powi k < 2 powi 1024"
    using k(2) by (intro power_int_strict_increasing) simp_all
  with yk have "\<not> 2 powi 1024 \<le> \<bar>y\<bar>" by linarith
  then have "rnd x = Finite y"
    unfolding rnd_def Let_def y_def q_def e_def by simp
  with err yk show ?thesis by blast
qed


lemma sin_lipschitz: "\<bar>sin x - sin y\<bar> \<le> \<bar>x - y\<bar>" for x y :: real
proof -
  have "\<bar>sin x - sin y\<bar> = 2 * \<bar>sin ((x - y) / 2)\<bar> * \<bar>cos ((x + y) / 2)\<bar>"
    by (simp add: sin_diff_sin abs_mult)
  also have "\<dots> \<le> 2 * \<bar>(x - y) / 2\<bar> * 1"
    by (intro mult_mono abs_sin_x_le_abs_x) simp_all
  finally show ?thesis by simp
qed

lemma near_Finite: "near (Finite y) x eps \<longleftrightarrow> \<bar>y - x\<bar> \<le> eps"
  unfolding near_def between_def by (simp add: abs_le_iff) linarith

lemma near_cases:
  assumes "near a x eps"
  obtains y where "a = Finite y" "\<bar>y - x\<bar> \<le> eps"
proof (cases a)
  case (Finite y)
  with assms show ?thesis using that by (simp add: near_Finite)
qed (use assms in \<open>simp_all add: near_def between_def\<close>)

lemma sin_spec_Math_sin: "sin_spec Math_sin"
proof -
  define f where "f = (\<lambda>a. case a of Finite x \<Rightarrow> rnd (sin x) | _ \<Rightarrow> NaN)"
  have "near (f (Finite x)) (sin x) (2 powi (- 53))" for x
  proof -
    have "\<bar>sin x\<bar> \<le> 2 powi 0" by simp
    from rnd_error [OF _ _ this] obtain y where
      "rnd (sin x) = Finite y" "\<bar>y - sin x\<bar> \<le> 2 powi (0 - 53)" by auto
    then show ?thesis by (simp add: f_def near_Finite)
  qed
  then have "sin_spec f" by (simp add: sin_spec_def f_def rnd_0)
  then have "sin_spec (SOME g. sin_spec g)" by (rule someI [where P = sin_spec])
  then show ?thesis by (simp add: Math_sin_def)
qed


lemma Math_sin_near:
  obtains y where "Math_sin (Finite x) = Finite y" "\<bar>y - sin x\<bar> \<le> 2 powi (- 53)"
proof -
  from sin_spec_Math_sin have "near (Math_sin (Finite x)) (sin x) (2 powi (- 53))"
    by (simp add: sin_spec_def)
  then show ?thesis using that by (rule near_cases)
qed

lemma fsub_Finite: "fsub (Finite x) (Finite y) = rnd (x - y)"
  by (simp add: fsub_def)

lemma lerp_error:
  assumes a: "\<bar>a\<bar> \<le> 180" and b: "\<bar>b\<bar> \<le> 180" and t: "0 \<le> t" "t \<le> 1"
  obtains r where "lerp (Finite a) (Finite b) (Finite t) = Finite r"
    and "\<bar>r - (a + (b - a) * t)\<bar> \<le> 2 powi (- 42)"
proof -
  have "\<bar>b - a\<bar> \<le> 2 powi 9" using a b by simp
  from rnd_error [OF _ _ this] obtain d where
    d: "rnd (b - a) = Finite d" "\<bar>d - (b - a)\<bar> \<le> 2 powi (- 44)" "\<bar>d\<bar> \<le> 2 powi 9"
    by auto
  have dt: "\<bar>d * t\<bar> \<le> \<bar>d\<bar>" using t by (simp add: abs_mult mult_left_le)
  then have "\<bar>d * t\<bar> \<le> 2 powi 9" using d(3) by linarith
  from rnd_error [OF _ _ this] obtain p where
    p: "rnd (d * t) = Finite p" "\<bar>p - d * t\<bar> \<le> 2 powi (- 44)" "\<bar>p\<bar> \<le> 2 powi 9"
    by auto
  have "\<bar>a + p\<bar> \<le> 2 powi 10" using a p(3) by simp
  from rnd_error [OF _ _ this] obtain r where
    r: "rnd (a + p) = Finite r" "\<bar>r - (a + p)\<bar> \<le> 2 powi (- 43)"
    by auto
  have "\<bar>d * t - (b - a) * t\<bar> = \<bar>d - (b - a)\<bar> * \<bar>t\<bar>"
    by (simp add: abs_mult [symmetric] algebra_simps)
  also have "\<dots> \<le> \<bar>d - (b - a)\<bar>" using t by (simp add: mult_left_le)
  finally have e: "\<bar>d * t - (b - a) * t\<bar> \<le> 2 powi (- 44)" using d(2) by linarith
  have "lerp (Finite a) (Finite b) (Finite t) = Finite r"
    by (simp add: lerp_def fsub_Finite d(1) p(1) r(1))
  moreover have "\<bar>r - (a + (b - a) * t)\<bar> \<le> 2 powi (- 42)"
  proof -
    have "\<bar>r - (a + (b - a) * t)\<bar> \<le>
        \<bar>r - (a + p)\<bar> + \<bar>p - d * t\<bar> + \<bar>d * t - (b - a) * t\<bar>" by linarith
    also have "\<dots> \<le> 2 powi (- 43) + 2 powi (- 44) + 2 powi (- 44)"
      using r(2) p(2) e by linarith
    also have "\<dots> = 2 powi (- 42)" by simp
    finally show ?thesis .
  qed
  ultimately show ?thesis by (rule that)
qed

lemma scale_error:
  assumes t: "0 \<le> t" "t \<le> 1"
  obtains r where
    "fadd (Finite 1) (fmul (rnd 0.6) (Math_sin (fmul Math_PI (Finite t)))) = Finite r"
    and "\<bar>r - (1 + 0.6 * sin (pi * t))\<bar> \<le> 2 powi (- 49)"
proof -
  have "\<bar>pi\<bar> \<le> 2 powi 2" using pi_less_4 pi_gt_zero by simp
  from rnd_error [OF _ _ this] obtain P where
    P: "rnd pi = Finite P" "\<bar>P - pi\<bar> \<le> 2 powi (- 51)" "\<bar>P\<bar> \<le> 2 powi 2"
    by auto
  have "\<bar>P * t\<bar> \<le> \<bar>P\<bar>" using t by (simp add: abs_mult mult_left_le)
  then have "\<bar>P * t\<bar> \<le> 2 powi 2" using P(3) by linarith
  from rnd_error [OF _ _ this] obtain x where
    x: "rnd (P * t) = Finite x" "\<bar>x - P * t\<bar> \<le> 2 powi (- 51)"
    by auto
  have "\<bar>P * t - pi * t\<bar> = \<bar>P - pi\<bar> * \<bar>t\<bar>"
    by (simp add: abs_mult [symmetric] algebra_simps)
  also have "\<dots> \<le> \<bar>P - pi\<bar>" using t by (simp add: mult_left_le)
  finally have "\<bar>P * t - pi * t\<bar> \<le> 2 powi (- 51)" using P(2) by linarith
  with x(2) have xt: "\<bar>x - pi * t\<bar> \<le> 2 powi (- 51) + 2 powi (- 51)" by linarith
  obtain s1 where s1: "Math_sin (Finite x) = Finite s1" "\<bar>s1 - sin x\<bar> \<le> 2 powi (- 53)"
    by (rule Math_sin_near)
  have "\<bar>sin x - sin (pi * t)\<bar> \<le> \<bar>x - pi * t\<bar>" by (rule sin_lipschitz)
  moreover have "(2::real) powi (- 51) + 2 powi (- 51) = 2 powi (- 50)" by simp
  ultimately have ss: "\<bar>s1 - sin (pi * t)\<bar> \<le> 2 powi (- 53) + 2 powi (- 50)"
    using xt s1(2) by linarith
  have "\<bar>sin (pi * t)\<bar> \<le> 1" by simp
  moreover have "(2::real) powi (- 53) + 2 powi (- 50) \<le> 1" by simp
  ultimately have s2: "\<bar>s1\<bar> \<le> 2" using ss by linarith
  have "\<bar>0.6 :: real\<bar> \<le> 2 powi 0" by simp
  from rnd_error [OF _ _ this] obtain c where
    c: "rnd 0.6 = Finite c" "\<bar>c - 0.6\<bar> \<le> 2 powi (- 53)" "\<bar>c\<bar> \<le> 1"
    by auto
  have "\<bar>c * s1\<bar> \<le> 1 * 2" unfolding abs_mult using c(3) s2 by (intro mult_mono) simp_all
  then have "\<bar>c * s1\<bar> \<le> 2 powi 1" by simp
  from rnd_error [OF _ _ this] obtain m where
    m: "rnd (c * s1) = Finite m" "\<bar>m - c * s1\<bar> \<le> 2 powi (- 52)" "\<bar>m\<bar> \<le> 2"
    by auto
  have "\<bar>1 + m\<bar> \<le> 2 powi 2" using m(3) by simp
  from rnd_error [OF _ _ this] obtain r where
    r: "rnd (1 + m) = Finite r" "\<bar>r - (1 + m)\<bar> \<le> 2 powi (- 51)"
    by auto
  have e1: "\<bar>(c - 0.6) * s1\<bar> \<le> 2 powi (- 53) * 2"
    unfolding abs_mult using c(2) s2 by (intro mult_mono) simp_all
  have "\<bar>0.6 * (s1 - sin (pi * t))\<bar> = 0.6 * \<bar>s1 - sin (pi * t)\<bar>"
    by (subst abs_mult) simp
  also have "\<dots> \<le> 0.6 * (2 powi (- 53) + 2 powi (- 50))"
    using ss by (intro mult_left_mono) simp_all
  finally have e2: "\<bar>0.6 * (s1 - sin (pi * t))\<bar> \<le> 0.6 * (2 powi (- 53) + 2 powi (- 50))" .
  have "c * s1 - 0.6 * sin (pi * t) = (c - 0.6) * s1 + 0.6 * (s1 - sin (pi * t))"
    by (simp add: field_simps)
  with e1 e2 have cs: "\<bar>c * s1 - 0.6 * sin (pi * t)\<bar> \<le>
      2 powi (- 53) * 2 + 0.6 * (2 powi (- 53) + 2 powi (- 50))"
    by linarith
  have "fadd (Finite 1) (fmul (rnd 0.6) (Math_sin (fmul Math_PI (Finite t)))) = Finite r"
    by (simp only: Math_PI_def P(1) fmul.simps x(1) s1(1) c(1) m(1) fadd.simps r(1))
  moreover have "\<bar>r - (1 + 0.6 * sin (pi * t))\<bar> \<le> 2 powi (- 49)"
  proof -
    have "\<bar>r - (1 + 0.6 * sin (pi * t))\<bar> \<le>
        \<bar>r - (1 + m)\<bar> + \<bar>m - c * s1\<bar> + \<bar>c * s1 - 0.6 * sin (pi * t)\<bar>" by linarith
    also have "\<dots> \<le> 2 powi (- 51) + 2 powi (- 52) +
        (2 powi (- 53) * 2 + 0.6 * (2 powi (- 53) + 2 powi (- 50)))"
      using r(2) m(2) cs by linarith
    also have "\<dots> \<le> 2 powi (- 49)" by simp
    finally show ?thesis .
  qed
  ultimately show ?thesis by (rule that)
qed



lemma step_stores:
  assumes "fless (progress tr now) (Finite 1)"
  shows "movingPosition (step tr now s) =
           Some (fst (interpolate (trip_from tr) (trip_to tr) (progress tr now))) \<and>
         movingScale (step tr now s) =
           snd (interpolate (trip_from tr) (trip_to tr) (progress tr now))"
  using assms
  by (simp add: step_def interpolate_def progress_def requestAnimationFrame_def Let_def)

section \<open>Invariance\<close>

lemma run_append: "run (es @ fs) s = run fs (run es s)"
  by (induction es arbitrary: s) simp_all

lemma consistent_initial: "consistent initial"
  by (simp add: consistent_def initial_def MAX_DELIVERIES_def)

lemma consistent_click: "consistent s \<Longrightarrow> consistent (snd (handleOrderClick clock s))"
  by (auto simp: consistent_def handleOrderClick_def animateBucket_def
      requestAnimationFrame_def MAX_DELIVERIES_def Let_def)

lemma frame_empty: "frames s = [] \<Longrightarrow> frame now s = s"
  by (simp add: frame_def)

lemma frame_single: "frames s = [(h, cb)] \<Longrightarrow> frame now s = step cb now (s\<lparr>frames := []\<rparr>)"
  by (simp add: frame_def)

lemma frames_cases:
  assumes "length (frames s) \<le> 1"
  obtains "frames s = []" | h cb where "frames s = [(h, cb)]"
proof (cases "frames s")
  case Nil
  then show ?thesis using that by simp
next
  case (Cons p ps)
  with assms have "ps = []" by simp
  with Cons show ?thesis using that by (cases p) simp
qed

lemma consistent_frame:
  assumes "consistent s"
  shows "consistent (frame now s)"
proof -
  from assms have "length (frames s) \<le> 1" by (simp add: consistent_def)
  then show ?thesis
  proof (cases rule: frames_cases)
    case 1
    with assms show ?thesis by (simp add: frame_empty)
  next
    case (2 h cb)
    with assms show ?thesis
      by (auto simp: frame_single consistent_def step_def
          requestAnimationFrame_def MAX_DELIVERIES_def Let_def replicate_append_same)
  qed
qed

lemma consistent_exec: "consistent s \<Longrightarrow> consistent (snd (exec e s))"
  by (cases e) (simp_all add: consistent_click consistent_frame)

lemma consistent_run: "consistent s \<Longrightarrow> consistent (run es s)"
  by (induction es arbitrary: s) (simp_all add: consistent_exec)

lemma reachable_consistent: "reachable s \<Longrightarrow> consistent s"
  by (induction rule: reachable.induct) (simp_all add: consistent_initial consistent_exec)

lemma reachable_run: "reachable s \<Longrightarrow> reachable (run es s)"
  by (induction es arbitrary: s) (simp_all add: reachable.after_event)

lemma reachable_from_initial: "reachable (run es initial)"
  by (rule reachable_run [OF reachable.mounted])

section \<open>Trips and dispatches\<close>

lemma click_idle:
  assumes "consistent s" "\<not> isAnimating s" "deliveredCount s < MAX_DELIVERIES"
  shows "handleOrderClick clock s =
           (None, animateBucket INDIA_COORD ARGENTINA_COORD (Finite 6000) clock
                    (s\<lparr>showIdle := False\<rparr>))"
  using assms by (simp add: consistent_def handleOrderClick_def)

lemma animateBucket_frames:
  "frames (animateBucket from to d clock s) =
     frames s @ [(nextHandle s, \<lparr>trip_from = from, trip_to = to, durationMs = d, start = clock\<rparr>)]"
  by (simp add: animateBucket_def requestAnimationFrame_def Let_def)

lemma click_starts:
  assumes "consistent s" "\<not> isAnimating s" "deliveredCount s < MAX_DELIVERIES"
  shows "in_flight clock (snd (handleOrderClick clock s)) \<and>
         deliveredCount (snd (handleOrderClick clock s)) = deliveredCount s"
  using assms
  by (simp add: click_idle in_flight_def order_trip_def consistent_def animateBucket_def
      requestAnimationFrame_def Let_def)

lemma in_flight_frames:
  assumes "in_flight clock s"
  obtains h where "frames s = [(h, order_trip clock)]"
  using assms by (auto simp: in_flight_def)

lemma frame_keeps:
  assumes "in_flight clock s" "\<not> arrived clock now"
  shows "in_flight clock (frame now s) \<and> deliveredCount (frame now s) = deliveredCount s"
proof -
  from assms(1) obtain h where h: "frames s = [(h, order_trip clock)]" by (rule in_flight_frames)
  from assms(2) have t: "fless (fmin (Finite 1) (fdiv (fsub now clock) (Finite 6000))) (Finite 1)"
    by (simp add: arrived_def)
  from assms(1) have a: "isAnimating s" by (simp add: in_flight_def)
  show ?thesis using t a
    by (simp add: frame_single [OF h] step_def requestAnimationFrame_def
        Let_def in_flight_def order_trip_def)
qed

lemma frame_arrives:
  assumes "in_flight clock s" "arrived clock now"
  shows "\<not> isAnimating (frame now s) \<and> deliveredCount (frame now s) = Suc (deliveredCount s)"
proof -
  from assms(1) obtain h where h: "frames s = [(h, order_trip clock)]" by (rule in_flight_frames)
  from assms(2) have t: "\<not> fless (fmin (Finite 1) (fdiv (fsub now clock) (Finite 6000))) (Finite 1)"
    by (simp add: arrived_def)
  show ?thesis using t
    by (simp add: frame_single [OF h] step_def requestAnimationFrame_def
        Let_def in_flight_def order_trip_def)
qed

lemma run_mids:
  assumes "in_flight clock s" "list_all (\<lambda>now. \<not> arrived clock now) mids"
  shows "in_flight clock (run (map Frame mids) s) \<and>
         deliveredCount (run (map Frame mids) s) = deliveredCount s"
  using assms
proof (induction mids arbitrary: s)
  case Nil
  then show ?case by simp
next
  case (Cons now mids)
  from Cons.prems have k: "in_flight clock (frame now s) \<and> deliveredCount (frame now s) = deliveredCount s"
    by (simp add: frame_keeps)
  from Cons.prems have "list_all (\<lambda>now. \<not> arrived clock now) mids" by simp
  with k Cons.IH [of "frame now s"] show ?case by simp
qed

lemma completed_dispatch_run:
  assumes "consistent s" "\<not> isAnimating s" "deliveredCount s < MAX_DELIVERIES" "completes d"
  shows "\<not> isAnimating (run (completed_dispatch d) s) \<and>
         deliveredCount (run (completed_dispatch d) s) = Suc (deliveredCount s)"
proof -
  obtain clock mids arrival where d: "d = (clock, mids, arrival)" by (cases d)
  let ?s1 = "snd (handleOrderClick clock s)"
  let ?s2 = "run (map Frame mids) ?s1"
  from assms(1-3) have 1: "in_flight clock ?s1 \<and> deliveredCount ?s1 = deliveredCount s"
    by (rule click_starts)
  from assms(4) d have m: "list_all (\<lambda>now. \<not> arrived clock now) mids" and a: "arrived clock arrival"
    by simp_all
  from 1 m have 2: "in_flight clock ?s2 \<and> deliveredCount ?s2 = deliveredCount s"
    using run_mids [of clock ?s1 mids] by simp
  from 2 a have 3: "\<not> isAnimating (frame arrival ?s2) \<and> deliveredCount (frame arrival ?s2) = Suc (deliveredCount s)"
    using frame_arrives [of clock ?s2 arrival] by simp
  have "run (completed_dispatch d) s = frame arrival ?s2"
    by (simp add: d run_append)
  with 3 show ?thesis by simp
qed

lemma dispatches_run:
  assumes "consistent s" "\<not> isAnimating s" "deliveredCount s + length ds \<le> MAX_DELIVERIES"
    "list_all completes ds"
  shows "\<not> isAnimating (run (concat (map completed_dispatch ds)) s) \<and>
         deliveredCount (run (concat (map completed_dispatch ds)) s) = deliveredCount s + length ds"
  using assms
proof (induction ds arbitrary: s)
  case Nil
  then show ?case by simp
next
  case (Cons d ds)
  let ?s1 = "run (completed_dispatch d) s"
  from Cons.prems have lt: "deliveredCount s < MAX_DELIVERIES" and c: "completes d" by simp_all
  from Cons.prems(1,2) lt c have 1: "\<not> isAnimating ?s1 \<and> deliveredCount ?s1 = Suc (deliveredCount s)"
    by (rule completed_dispatch_run)
  have 2: "consistent ?s1" using Cons.prems(1) by (rule consistent_run)
  from 1 Cons.prems have 3: "deliveredCount ?s1 + length ds \<le> MAX_DELIVERIES" by simp
  from Cons.prems have 4: "list_all completes ds" by simp
  from Cons.IH [OF 2 _ 3 4] 1 show ?case by (simp add: run_append)
qed

lemma exhausted_exec:
  assumes "consistent s" "\<not> isAnimating s" "MAX_DELIVERIES \<le> deliveredCount s"
  shows "exec e s = (rejected e, s)"
proof (cases e)
  case (Click clock)
  with assms(3) show ?thesis by (simp add: handleOrderClick_def)
next
  case (Frame now)
  from assms(1,2) have "frames s = []" by (simp add: consistent_def)
  with Frame show ?thesis by (simp add: frame_empty)
qed

lemma exhausted_run:
  assumes "consistent s" "\<not> isAnimating s" "MAX_DELIVERIES \<le> deliveredCount s"
  shows "run es s = s \<and> alerts es s = map rejected es"
  by (induction es) (simp_all add: exhausted_exec [OF assms])

section \<open>Single events\<close>

lemmas eval = rnd_def rne_def Let_def expo.simps fsub_def

lemma five_trips_complete: "length five_trips = MAX_DELIVERIES \<and> list_all completes five_trips"
  by (simp add: five_trips_def MAX_DELIVERIES_def arrived_def eval)

lemma ends_trip_empty: "frames s = [] \<Longrightarrow> \<not> ends_trip now s"
  by (simp add: ends_trip_def)

lemma ends_trip_single:
  "frames s = [(h, cb)] \<Longrightarrow> ends_trip now s = (\<not> fless (progress cb now) (Finite 1))"
  by (simp add: ends_trip_def)

lemma ends_trip_animating:
  assumes "consistent s" "ends_trip now s"
  shows "isAnimating s"
proof -
  from assms(2) have "frames s \<noteq> []" using ends_trip_empty by blast
  with assms(1) show ?thesis by (simp add: consistent_def)
qed

lemma consistent_moving:
  assumes "consistent s"
  shows "(movingPosition s \<noteq> None) = isAnimating s \<and> (isAnimating s \<or> movingScale s = Finite 1)"
  using assms by (simp add: consistent_def)

lemma frame_ends:
  assumes "consistent s" "ends_trip now s"
  shows "\<not> isAnimating (frame now s) \<and>
         movingPosition (frame now s) = None \<and>
         movingScale (frame now s) = Finite 1 \<and>
         deliveredCount (frame now s) = deliveredCount s + 1 \<and>
         deliveredMarkers (frame now s) = deliveredMarkers s @ [ARGENTINA_COORD]"
proof -
  from assms(1) have "length (frames s) \<le> 1" by (simp add: consistent_def)
  then show ?thesis
  proof (cases rule: frames_cases)
    case 1
    with assms(2) show ?thesis by (simp add: ends_trip_empty)
  next
    case (2 h cb)
    with assms(1) have to: "trip_to cb = ARGENTINA_COORD" by (simp add: consistent_def)
    from assms(2) 2 have "\<not> fless (progress cb now) (Finite 1)" by (simp add: ends_trip_single)
    then show ?thesis
      by (simp add: frame_single [OF 2] step_def progress_def to Let_def)
  qed
qed

lemma frame_goes_on:
  assumes "consistent s" "\<not> ends_trip now s"
  shows "isAnimating (frame now s) = isAnimating s \<and>
         (isAnimating s \<longrightarrow> movingPosition (frame now s) \<noteq> None) \<and>
         deliveredCount (frame now s) = deliveredCount s \<and>
         deliveredMarkers (frame now s) = deliveredMarkers s"
proof -
  from assms(1) have "length (frames s) \<le> 1" by (simp add: consistent_def)
  then show ?thesis
  proof (cases rule: frames_cases)
    case 1
    with consistent_moving [OF assms(1)] show ?thesis by (simp add: frame_empty)
  next
    case (2 h cb)
    from assms(2) 2 have "fless (progress cb now) (Finite 1)" by (simp add: ends_trip_single)
    then show ?thesis
      by (simp add: frame_single [OF 2] step_def progress_def requestAnimationFrame_def Let_def)
  qed
qed

lemma click_delivery:
  "deliveredCount (snd (handleOrderClick clock s)) = deliveredCount s \<and>
   deliveredMarkers (snd (handleOrderClick clock s)) = deliveredMarkers s"
  by (simp add: handleOrderClick_def animateBucket_def requestAnimationFrame_def Let_def)

lemma click_sets_marker:
  assumes "consistent s" "\<not> isAnimating s" "deliveredCount s < MAX_DELIVERIES"
  shows "isAnimating (snd (handleOrderClick clock s)) \<and>
         movingPosition (snd (handleOrderClick clock s)) = Some INDIA_COORD \<and>
         movingScale (snd (handleOrderClick clock s)) = Finite 1"
  using assms
  by (simp add: click_idle animateBucket_def requestAnimationFrame_def Let_def)

lemma click_rejected:
  assumes "isAnimating s \<or> MAX_DELIVERIES \<le> deliveredCount s"
  shows "snd (handleOrderClick clock s) = s"
  using assms by (auto simp: handleOrderClick_def)

lemma frame_trips:
  assumes "consistent s"
  shows "set (map snd (frames (frame now s))) \<subseteq> set (map snd (frames s))"
proof -
  from assms have "length (frames s) \<le> 1" by (simp add: consistent_def)
  then show ?thesis
  proof (cases rule: frames_cases)
    case 1
    then show ?thesis by (simp add: frame_empty)
  next
    case (2 h cb)
    then show ?thesis
      by (simp add: frame_single step_def requestAnimationFrame_def Let_def)
  qed
qed

subsection \<open>Sample sessions\<close>

lemma on_the_way_reachable: "reachable on_the_way"
  unfolding on_the_way_def by (rule reachable_from_initial)

lemma exhausted_sample_reachable: "reachable exhausted_sample"
  unfolding exhausted_sample_def by (rule reachable_from_initial)

lemma first_click:
  "isAnimating (snd (handleOrderClick (Finite 0) initial)) \<and>
   frames (snd (handleOrderClick (Finite 0) initial)) = [(1, order_trip (Finite 0))]"
  by (simp add: handleOrderClick_def animateBucket_def requestAnimationFrame_def Let_def
      initial_def MAX_DELIVERIES_def order_trip_def)

lemma on_the_way_facts:
  "isAnimating on_the_way \<and> frames on_the_way = [(2, order_trip (Finite 0))] \<and>
   deliveredCount on_the_way = 0 \<and> deliveredMarkers on_the_way = [] \<and>
   \<not> showIdle on_the_way \<and> movingPosition on_the_way \<noteq> None"
  by (simp add: on_the_way_def handleOrderClick_def animateBucket_def requestAnimationFrame_def
      frame_def step_def initial_def MAX_DELIVERIES_def order_trip_def eval)

lemma on_the_way_arrival: "ends_trip (Finite 6000) on_the_way \<and> \<not> ends_trip (Finite 32) on_the_way"
  by (simp add: ends_trip_def on_the_way_facts progress_def order_trip_def eval)

lemma exhausted_sample_facts:
  "\<not> isAnimating exhausted_sample \<and> deliveredCount exhausted_sample = 5 \<and>
   \<not> showIdle exhausted_sample \<and> frames exhausted_sample = [] \<and>
   length (deliveredMarkers exhausted_sample) = 5"
proof -
  have c: "consistent exhausted_sample"
    by (rule reachable_consistent [OF exhausted_sample_reachable])
  have i: "\<not> isAnimating initial" "deliveredCount initial + length five_trips \<le> MAX_DELIVERIES"
    using five_trips_complete by (simp_all add: initial_def)
  from dispatches_run [OF consistent_initial i] five_trips_complete
  have d: "\<not> isAnimating exhausted_sample" "deliveredCount exhausted_sample = 5"
    by (simp_all add: exhausted_sample_def initial_def MAX_DELIVERIES_def)
  with c show ?thesis by (simp add: consistent_def MAX_DELIVERIES_def)
qed

lemma INDIA_COORD_value:
  "INDIA_COORD =
     (Finite (3674617806954595 / 281474976710656), Finite (5645270476455929 / 70368744177664))"
  by (simp add: INDIA_COORD_def eval)

lemma ARGENTINA_COORD_value:
  "ARGENTINA_COORD =
     (Finite (- (4753215646077 / 137438953472)),
      Finite (- (8218819786473089 / 140737488355328)))"
  by (simp add: ARGENTINA_COORD_def eval)

section \<open>The interpolator in binary64\<close>

text \<open>
  The coordinates of the specification's example and of the program as binary64 values,
  and the positions the interpolator computes for them at \<open>t = 1\<close>.
\<close>

lemma spec_coords:
  "rnd 13.0549 = Finite (3674627673459943 / 281474976710656) \<and>
   rnd 80.2241 = Finite (5645269169783335 / 70368744177664) \<and>
   rnd (- 34.5842) = Finite (- (4867293444778335 / 140737488355328)) \<and>
   rnd (- 58.3982) = Finite (- (2054703998118029 / 35184372088832))"
  by (simp add: eval)


lemma spec_example_at_1:
  "fst (interpolate (rnd 13.0549, rnd 80.2241) (rnd (- 34.5842), rnd (- 58.3982)) (Finite 1)) =
     (Finite (- (2433646722389167 / 70368744177664)),
      Finite (- (4109407996236057 / 70368744177664)))"
  by (simp add: interpolate_def lerp_def eval)

lemma program_coords_at_1:
  "fst (interpolate INDIA_COORD ARGENTINA_COORD (Finite 1)) =
     (Finite (- (4753215646077 / 137438953472)),
      Finite (- (4109409893236545 / 70368744177664)))"
  by (simp add: interpolate_def lerp_def INDIA_COORD_def ARGENTINA_COORD_def eval)

text \<open>Overflow: a real of magnitude \<open>2 ^ 1024\<close> or more rounds to an infinity.\<close>

lemma rne_lower:
  assumes "of_int N \<le> r"
  shows "N \<le> rne r"
proof -
  from assms have "N \<le> \<lfloor>r\<rfloor>" by (simp add: le_floor_iff)
  with rne_cases [of r] show ?thesis by auto
qed

lemma rne_of_int: "rne (of_int n) = n"
  by (simp add: rne_def)

lemma rne_upper:
  assumes "r \<le> of_int N"
  shows "rne r \<le> N"
proof -
  from assms have u: "\<lfloor>r\<rfloor> \<le> N" by (simp add: floor_le_iff) linarith?
  from rne_cases [of r] show ?thesis
  proof
    assume "rne r = \<lfloor>r\<rfloor>"
    with u show ?thesis by simp
  next
    assume c: "rne r = \<lfloor>r\<rfloor> + 1 \<and> of_int \<lfloor>r\<rfloor> < r"
    with assms have "real_of_int \<lfloor>r\<rfloor> < of_int N" by linarith
    then have "\<lfloor>r\<rfloor> < N" by simp
    with c show ?thesis by simp
  qed
qed

lemma rnd_overflow:
  assumes "2 powi 1024 \<le> \<bar>x\<bar>"
  shows "rnd x = (if 0 < x then PosInf else NegInf)"
proof -
  define e where "e = expo \<bar>x\<bar>"
  define q :: real where "q = 2 powi (e - 52)"
  define y where "y = of_int (rne (x / q)) * q"
  have "(0::real) < 2 powi 1024" by simp
  with assms have p: "0 < \<bar>x\<bar>" by linarith
  note b = expo_bounds [OF p, folded e_def]
  have e: "1024 \<le> e"
  proof (rule ccontr)
    assume "\<not> 1024 \<le> e"
    then have "e + 1 \<le> 1024" by simp
    then have "(2::real) powi (e + 1) \<le> 2 powi 1024" by (rule power_int_increasing) simp
    with b assms show False by linarith
  qed
  have q0: "0 < q" by (simp add: q_def)
  have pe: "(2::real) powi e = of_int (2 ^ 52) * q"
  proof -
    have "(2::real) powi e = 2 powi (52 + (e - 52))" by simp
    also have "\<dots> = 2 powi 52 * 2 powi (e - 52)" by (rule power_int_add) simp
    finally show ?thesis by (simp add: q_def)
  qed
  have big: "(2::real) powi 1024 \<le> 2 powi e" using e by (rule power_int_increasing) simp
  have "2 powi 1024 \<le> \<bar>y\<bar>"
  proof (cases "0 < x")
    case True
    with b have "of_int (2 ^ 52) * q \<le> x" by (simp add: pe)
    then have "of_int (2 ^ 52) \<le> x / q" using q0 by (simp add: field_simps)
    then have "2 ^ 52 \<le> rne (x / q)" by (rule rne_lower)
    then have "real_of_int (2 ^ 52) \<le> of_int (rne (x / q))" by (simp only: of_int_le_iff)
    then have "of_int (2 ^ 52) * q \<le> y" using q0 by (simp add: y_def)
    with big show ?thesis by (simp add: pe)
  next
    case False
    with b have "x \<le> - (of_int (2 ^ 52) * q)" by (simp add: pe)
    then have "x / q \<le> of_int (- (2 ^ 52))" using q0 by (simp add: field_simps)
    then have "rne (x / q) \<le> - (2 ^ 52)" by (rule rne_upper)
    then have "of_int (rne (x / q)) \<le> real_of_int (- (2 ^ 52))" by (simp only: of_int_le_iff)
    then have "of_int (rne (x / q)) * q \<le> real_of_int (- (2 ^ 52)) * q"
      using q0 by (intro mult_right_mono) simp_all
    then have "y \<le> - (of_int (2 ^ 52) * q)" by (simp add: y_def)
    with big show ?thesis by (simp add: pe)
  qed
  moreover have "max e (- 1022) = e" using e by simp
  ultimately show ?thesis
    unfolding rnd_def Let_def y_def q_def e_def by simp
qed

lemma binary64_pow2:
  assumes "- 1022 \<le> k" "k \<le> 1023"
  shows "binary64 (2 powi k)"
proof -
  define q :: real where "q = 2 powi (k - 52)"
  have "(2::real) powi k < 2 powi (k + 1)" by (rule power_int_strict_increasing) simp_all
  then have e: "expo \<bar>2 powi k\<bar> = k" by (intro expo_eqI) simp_all
  have pk: "(2::real) powi k = of_int (2 ^ 52) * q"
  proof -
    have "(2::real) powi k = 2 powi (52 + (k - 52))" by simp
    also have "\<dots> = 2 powi 52 * 2 powi (k - 52)" by (rule power_int_add) simp
    finally show ?thesis by (simp add: q_def)
  qed
  have q0: "q \<noteq> 0" by (simp add: q_def)
  have "2 powi k / q = of_int (2 ^ 52)" using q0 by (simp add: pk)
  then have r: "of_int (rne (2 powi k / q)) * q = 2 powi k"
    by (simp only: rne_of_int pk)
  have "(2::real) powi k < 2 powi 1024"
    using assms(2) by (intro power_int_strict_increasing) simp_all
  then have "\<not> 2 powi 1024 \<le> \<bar>(2::real) powi k\<bar>" by simp
  moreover have "max k (- 1022) = k" using assms(1) by simp
  ultimately show ?thesis
    unfolding binary64_def rnd_def Let_def e using r by (simp only: q_def [symmetric] if_False)
qed

lemma lerp_overflow:
  "lerp (Finite (2 powi 1023)) (Finite (- (2 powi 1023))) (Finite 0) = NaN"
proof -
  have "(2::real) powi 1024 = 2 powi (1023 + 1)" by simp
  also have "\<dots> = 2 powi 1023 * 2" by (rule power_int_add_1) simp
  finally have "\<bar>- (2 powi 1023) - (2::real) powi 1023\<bar> = 2 powi 1024" by (simp only: abs_minus_commute) simp
  then have "rnd (- (2 powi 1023) - 2 powi 1023) = (if (0::real) < - (2 powi 1023) - 2 powi 1023 then PosInf else NegInf)"
    by (intro rnd_overflow) simp
  moreover have "\<not> (0::real) < - (2 powi 1023) - 2 powi 1023" by simp
  ultimately have "rnd (- (2 powi 1023) - 2 powi 1023) = NegInf" by (simp only: if_False)
  then show ?thesis by (simp only: lerp_def fsub_Finite fmul.simps fadd.simps refl if_True)
qed

text \<open>
  The specification gives the position as \<open>from + (to - from) * t\<close> and says that the
  interpolator has no failure modes. On the example of the specification at \<open>t = 1\<close> the
  latitude computed is not the value of that formula, and for the binary64 latitudes
  \<open>2 ^ 1023\<close> and \<open>- 2 ^ 1023\<close> the latitude computed at \<open>t = 0\<close> is \<open>NaN\<close>.
\<close>

theorem interpolate_not_exact:
  "rnd 13.0549 = Finite (3674627673459943 / 281474976710656) \<and>
   rnd (- 34.5842) = Finite (- (4867293444778335 / 140737488355328)) \<and>
   fst (fst (interpolate (rnd 13.0549, rnd 80.2241) (rnd (- 34.5842), rnd (- 58.3982))
     (Finite 1))) \<noteq>
     Finite (3674627673459943 / 281474976710656 +
       (- (4867293444778335 / 140737488355328) - 3674627673459943 / 281474976710656) * 1) \<and>
   binary64 (2 powi 1023) \<and>
   fst (fst (interpolate (Finite (2 powi 1023), Finite 0) (Finite (- (2 powi 1023)), Finite 0)
     (Finite 0))) = NaN"
proof -
  have e: "fst (fst (interpolate (rnd 13.0549, rnd 80.2241) (rnd (- 34.5842), rnd (- 58.3982))
      (Finite 1))) = Finite (- (2433646722389167 / 70368744177664))"
    by (simp only: spec_example_at_1 fst_conv)
  have 1: "fst (fst (interpolate (rnd 13.0549, rnd 80.2241)
      (rnd (- 34.5842), rnd (- 58.3982)) (Finite 1))) \<noteq>
      Finite (3674627673459943 / 281474976710656 +
       (- (4867293444778335 / 140737488355328) - 3674627673459943 / 281474976710656) * 1)"
    unfolding e by simp
  have 2: "fst (fst (interpolate (Finite (2 powi 1023), Finite 0)
      (Finite (- (2 powi 1023)), Finite 0) (Finite 0))) = NaN"
    by (simp only: interpolate_def Let_def fst_conv lerp_overflow)
  have 3: "binary64 (2 powi 1023)" by (rule binary64_pow2) simp_all
  from spec_coords 1 2 3 show ?thesis by blast
qed

text \<open>
  Claim C1, as the code has it. For coordinates whose components have magnitude at most
  180 and every fraction \<open>t\<close> between 0 and 1, the interpolator returns a finite position
  whose latitude is within \<open>2 ^ - 42\<close> of \<open>from.lat + (to.lat - from.lat) * t\<close> and whose
  longitude is within \<open>2 ^ - 42\<close> of \<open>from.lng + (to.lng - from.lng) * t\<close>, and a finite
  scale within \<open>2 ^ - 49\<close> of \<open>1 + 0.6 * sin (\<pi> * t)\<close>. The interpolator is the part of
  \<open>step\<close> that computes what \<open>step\<close> stores as position and scale while \<open>t < 1\<close>; its
  results depend on \<open>from\<close>, \<open>to\<close> and \<open>t\<close> alone.
\<close>

theorem interpolate_contract:
  assumes "\<bar>a\<bar> \<le> 180" and "\<bar>a'\<bar> \<le> 180" and "\<bar>b\<bar> \<le> 180" and "\<bar>b'\<bar> \<le> 180"
    and "0 \<le> t" and "t \<le> 1"
  shows "near (fst (fst (interpolate (Finite a, Finite a') (Finite b, Finite b') (Finite t))))
           (a + (b - a) * t) (2 powi (- 42)) \<and>
         near (snd (fst (interpolate (Finite a, Finite a') (Finite b, Finite b') (Finite t))))
           (a' + (b' - a') * t) (2 powi (- 42)) \<and>
         near (snd (interpolate (Finite a, Finite a') (Finite b, Finite b') (Finite t)))
           (1 + 0.6 * sin (pi * t)) (2 powi (- 49)) \<and>
         (fless (progress tr now) (Finite 1) \<longrightarrow>
            movingPosition (step tr now s) =
              Some (fst (interpolate (trip_from tr) (trip_to tr) (progress tr now))) \<and>
            movingScale (step tr now s) =
              snd (interpolate (trip_from tr) (trip_to tr) (progress tr now)))"
proof -
  obtain lat where lat: "lerp (Finite a) (Finite b) (Finite t) = Finite lat"
    "\<bar>lat - (a + (b - a) * t)\<bar> \<le> 2 powi (- 42)"
    using assms(1,3,5,6) by (rule lerp_error)
  obtain lng where lng: "lerp (Finite a') (Finite b') (Finite t) = Finite lng"
    "\<bar>lng - (a' + (b' - a') * t)\<bar> \<le> 2 powi (- 42)"
    using assms(2,4,5,6) by (rule lerp_error)
  obtain sc where sc:
    "fadd (Finite 1) (fmul (rnd 0.6) (Math_sin (fmul Math_PI (Finite t)))) = Finite sc"
    "\<bar>sc - (1 + 0.6 * sin (pi * t))\<bar> \<le> 2 powi (- 49)"
    using assms(5,6) by (rule scale_error)
  have "interpolate (Finite a, Finite a') (Finite b, Finite b') (Finite t) =
      ((Finite lat, Finite lng), Finite sc)"
    by (simp only: interpolate_def Let_def fst_conv snd_conv lat(1) lng(1) sc(1))
  with lat(2) lng(2) sc(2) step_stores [of tr now s] show ?thesis
    by (simp only: near_Finite fst_conv snd_conv) blast
qed

text \<open>
  The bounds at a quarter of the way between two coordinates, and the first repaint of a
  trip of the program.
\<close>

theorem interpolate_contract_witness:
  "\<bar>13 :: real\<bar> \<le> 180 \<and> \<bar>80.25 :: real\<bar> \<le> 180 \<and> \<bar>- 34.5 :: real\<bar> \<le> 180 \<and>
   \<bar>- 58.5 :: real\<bar> \<le> 180 \<and> (0 :: real) \<le> 0.25 \<and> (0.25 :: real) \<le> 1 \<and>
   near (fst (fst (interpolate (Finite 13, Finite 80.25) (Finite (- 34.5), Finite (- 58.5))
     (Finite 0.25)))) (13 + (- 34.5 - 13) * 0.25) (2 powi (- 42)) \<and>
   near (snd (fst (interpolate (Finite 13, Finite 80.25) (Finite (- 34.5), Finite (- 58.5))
     (Finite 0.25)))) (80.25 + (- 58.5 - 80.25) * 0.25) (2 powi (- 42)) \<and>
   near (snd (interpolate (Finite 13, Finite 80.25) (Finite (- 34.5), Finite (- 58.5))
     (Finite 0.25))) (1 + 0.6 * sin (pi * 0.25)) (2 powi (- 49)) \<and>
   fless (progress (order_trip (Finite 0)) (Finite 16)) (Finite 1) \<and>
   movingPosition (step (order_trip (Finite 0)) (Finite 16) initial) =
     Some (fst (interpolate INDIA_COORD ARGENTINA_COORD
       (progress (order_trip (Finite 0)) (Finite 16))))"
proof -
  have h: "\<bar>13 :: real\<bar> \<le> 180" "\<bar>80.25 :: real\<bar> \<le> 180" "\<bar>- 34.5 :: real\<bar> \<le> 180"
    "\<bar>- 58.5 :: real\<bar> \<le> 180" "(0 :: real) \<le> 0.25" "(0.25 :: real) \<le> 1"
    by simp_all
  have p: "fless (progress (order_trip (Finite 0)) (Finite 16)) (Finite 1)"
    by (simp add: progress_def order_trip_def eval)
  have o: "trip_from (order_trip (Finite 0)) = INDIA_COORD"
    "trip_to (order_trip (Finite 0)) = ARGENTINA_COORD"
    by (simp_all add: order_trip_def)
  note c = interpolate_contract [OF h, of "order_trip (Finite 0)" "Finite 16" initial]
  from c p have "movingPosition (step (order_trip (Finite 0)) (Finite 16) initial) =
     Some (fst (interpolate INDIA_COORD ARGENTINA_COORD
       (progress (order_trip (Finite 0)) (Finite 16))))"
    by (simp only: o)
  with c h p show ?thesis by blast
qed




lemma real_lerp_between:
  fixes a b t :: real
  assumes "0 \<le> t" "t \<le> 1"
  shows "min a b \<le> a + (b - a) * t \<and> a + (b - a) * t \<le> max a b"
proof (cases "a \<le> b")
  case True
  define u where "u = (b - a) * t"
  from True have d: "0 \<le> b - a" by simp
  have "0 \<le> u" unfolding u_def using d assms(1) by (rule mult_nonneg_nonneg)
  moreover have "u \<le> (b - a) * 1" unfolding u_def using assms(2) d by (rule mult_left_mono)
  ultimately show ?thesis using True unfolding u_def [symmetric] by simp
next
  case False
  define u where "u = (a - b) * t"
  from False have d: "0 \<le> a - b" by simp
  have "0 \<le> u" unfolding u_def using d assms(1) by (rule mult_nonneg_nonneg)
  moreover have "u \<le> (a - b) * 1" unfolding u_def using assms(2) d by (rule mult_left_mono)
  moreover have "a + (b - a) * t = a - u" by (simp add: u_def algebra_simps)
  ultimately show ?thesis using False by simp
qed

lemma lerp_on_segment:
  assumes "\<bar>a\<bar> \<le> 180" and "\<bar>b\<bar> \<le> 180" and "0 \<le> t" and "t \<le> 1"
  shows "near (lerp (Finite a) (Finite b) (Finite t)) ((1 - t) * a + t * b) (2 powi (- 42)) \<and>
         between (lerp (Finite a) (Finite b) (Finite t))
           (min a b - 2 powi (- 42)) (max a b + 2 powi (- 42))"
proof -
  obtain r where r: "lerp (Finite a) (Finite b) (Finite t) = Finite r"
    "\<bar>r - (a + (b - a) * t)\<bar> \<le> 2 powi (- 42)"
    using assms by (rule lerp_error)
  have c: "a + (b - a) * t = (1 - t) * a + t * b" by (simp add: algebra_simps)
  note s = real_lerp_between [OF assms(3,4), of a b]
  from r(2) s have "min a b - 2 powi (- 42) \<le> r \<and> r \<le> max a b + 2 powi (- 42)"
    by linarith
  moreover from r(2) have "\<bar>r - ((1 - t) * a + t * b)\<bar> \<le> 2 powi (- 42)" by (simp only: c)
  ultimately show ?thesis by (simp only: r(1) near_Finite between_def number.case)
qed

text \<open>
  The coordinates of the program at \<open>t = 1\<close>, which \<open>step\<close> reaches at every arrival: the
  longitude computed is below the longitude of the destination, which is the smaller of
  the two longitudes, so it is not between them.
\<close>

theorem longitude_leaves_segment:
  "fless (snd ARGENTINA_COORD) (snd INDIA_COORD) \<and>
   fless (snd (fst (interpolate INDIA_COORD ARGENTINA_COORD (Finite 1)))) (snd ARGENTINA_COORD)"
proof -
  have "snd (fst (interpolate INDIA_COORD ARGENTINA_COORD (Finite 1))) =
      Finite (- (4109409893236545 / 70368744177664))"
    by (simp only: program_coords_at_1 snd_conv)
  moreover have "snd ARGENTINA_COORD = Finite (- (8218819786473089 / 140737488355328))"
    "snd INDIA_COORD = Finite (5645270476455929 / 70368744177664)"
    by (simp_all only: INDIA_COORD_value ARGENTINA_COORD_value snd_conv)
  ultimately show ?thesis by simp
qed

text \<open>
  Claim C7, as the code has it. For coordinates whose components have magnitude at most
  180 and every \<open>t\<close> between 0 and 1, each component of the interpolated position is
  finite and within \<open>2 ^ - 42\<close> of the component of \<open>(1 - t) * from + t * to\<close>; so it lies
  between the corresponding components of \<open>from\<close> and \<open>to\<close> up to \<open>2 ^ - 42\<close> on either
  side.
\<close>

theorem interpolate_on_segment:
  assumes "\<bar>a\<bar> \<le> 180" and "\<bar>a'\<bar> \<le> 180" and "\<bar>b\<bar> \<le> 180" and "\<bar>b'\<bar> \<le> 180"
    and "0 \<le> t" and "t \<le> 1"
  shows "near (fst (fst (interpolate (Finite a, Finite a') (Finite b, Finite b') (Finite t))))
           ((1 - t) * a + t * b) (2 powi (- 42)) \<and>
         near (snd (fst (interpolate (Finite a, Finite a') (Finite b, Finite b') (Finite t))))
           ((1 - t) * a' + t * b') (2 powi (- 42)) \<and>
         between (fst (fst (interpolate (Finite a, Finite a') (Finite b, Finite b') (Finite t))))
           (min a b - 2 powi (- 42)) (max a b + 2 powi (- 42)) \<and>
         between (snd (fst (interpolate (Finite a, Finite a') (Finite b, Finite b') (Finite t))))
           (min a' b' - 2 powi (- 42)) (max a' b' + 2 powi (- 42))"
  using lerp_on_segment [OF assms(1,3,5,6)] lerp_on_segment [OF assms(2,4,5,6)]
  by (simp only: interpolate_def Let_def fst_conv snd_conv)

text \<open>The coordinates of the program at \<open>t = 1\<close>.\<close>

theorem interpolate_on_segment_witness:
  "\<bar>3674617806954595 / 281474976710656 :: real\<bar> \<le> 180 \<and>
   \<bar>5645270476455929 / 70368744177664 :: real\<bar> \<le> 180 \<and>
   \<bar>- (4753215646077 / 137438953472) :: real\<bar> \<le> 180 \<and>
   \<bar>- (8218819786473089 / 140737488355328) :: real\<bar> \<le> 180 \<and>
   (0 :: real) \<le> 1 \<and> (1 :: real) \<le> 1 \<and>
   near (snd (fst (interpolate INDIA_COORD ARGENTINA_COORD (Finite 1))))
     ((1 - 1) * (5645270476455929 / 70368744177664) +
        1 * - (8218819786473089 / 140737488355328)) (2 powi (- 42)) \<and>
   between (fst (fst (interpolate INDIA_COORD ARGENTINA_COORD (Finite 1))))
     (min (3674617806954595 / 281474976710656) (- (4753215646077 / 137438953472)) - 2 powi (- 42))
     (max (3674617806954595 / 281474976710656) (- (4753215646077 / 137438953472)) + 2 powi (- 42)) \<and>
   between (snd (fst (interpolate INDIA_COORD ARGENTINA_COORD (Finite 1))))
     (min (5645270476455929 / 70368744177664) (- (8218819786473089 / 140737488355328)) -
        2 powi (- 42))
     (max (5645270476455929 / 70368744177664) (- (8218819786473089 / 140737488355328)) +
        2 powi (- 42))"
proof -
  have h: "\<bar>3674617806954595 / 281474976710656 :: real\<bar> \<le> 180"
    "\<bar>5645270476455929 / 70368744177664 :: real\<bar> \<le> 180"
    "\<bar>- (4753215646077 / 137438953472) :: real\<bar> \<le> 180"
    "\<bar>- (8218819786473089 / 140737488355328) :: real\<bar> \<le> 180"
    "(0 :: real) \<le> 1" "(1 :: real) \<le> 1"
    by simp_all
  show ?thesis
    unfolding INDIA_COORD_value ARGENTINA_COORD_value
    using interpolate_on_segment [OF h] h by blast
qed

section \<open>The delivery tracker\<close>

text \<open>
  Claim C2. In every reachable state at most one trip is active: at most one callback is
  scheduled, and one is scheduled exactly while \<open>isAnimating\<close> holds. The delivered count
  and the number of delivered markers never exceed \<open>MAX_DELIVERIES\<close>. A dispatch request
  starts a trip only when no trip is active and the count is below the cap, and then the
  new trip is the only one; otherwise it leaves the state as it is. A repaint starts no
  trip: it schedules only callbacks of a trip that was scheduled before.
\<close>

theorem single_trip_and_cap:
  assumes "reachable s"
  shows "length (frames s) \<le> 1 \<and>
         isAnimating s = (frames s \<noteq> []) \<and>
         deliveredCount s \<le> MAX_DELIVERIES \<and>
         length (deliveredMarkers s) \<le> MAX_DELIVERIES \<and>
         (if \<not> isAnimating s \<and> deliveredCount s < MAX_DELIVERIES
          then frames s = [] \<and>
               isAnimating (snd (handleOrderClick clock s)) \<and>
               frames (snd (handleOrderClick clock s)) = [(nextHandle s, order_trip clock)]
          else snd (handleOrderClick clock s) = s) \<and>
         set (map snd (frames (frame now s))) \<subseteq> set (map snd (frames s))"
proof -
  from assms have c: "consistent s" by (rule reachable_consistent)
  have click: "if \<not> isAnimating s \<and> deliveredCount s < MAX_DELIVERIES
          then frames s = [] \<and>
               isAnimating (snd (handleOrderClick clock s)) \<and>
               frames (snd (handleOrderClick clock s)) = [(nextHandle s, order_trip clock)]
          else snd (handleOrderClick clock s) = s"
  proof (cases "\<not> isAnimating s \<and> deliveredCount s < MAX_DELIVERIES")
    case True
    with c have "frames s = []" by (simp add: consistent_def)
    with True c show ?thesis
      by (simp add: click_idle animateBucket_def requestAnimationFrame_def Let_def order_trip_def)
  next
    case False
    then show ?thesis by (auto simp: handleOrderClick_def)
  qed
  from c have "length (frames s) \<le> 1" "isAnimating s = (frames s \<noteq> [])"
    "deliveredCount s \<le> MAX_DELIVERIES" "length (deliveredMarkers s) \<le> MAX_DELIVERIES"
    by (simp_all add: consistent_def)
  with click frame_trips [OF c, of now] show ?thesis by blast
qed

theorem single_trip_and_cap_witness:
  "reachable initial \<and>
   length (frames initial) \<le> 1 \<and>
   frames (snd (handleOrderClick (Finite 0) initial)) = [(1, order_trip (Finite 0))] \<and>
   reachable on_the_way \<and>
   isAnimating on_the_way \<and>
   frames on_the_way = [(2, order_trip (Finite 0))] \<and>
   snd (handleOrderClick (Finite 20) on_the_way) = on_the_way \<and>
   set (map snd (frames (frame (Finite 32) on_the_way))) \<subseteq> {order_trip (Finite 0)}"
proof -
  have i: "\<not> isAnimating initial \<and> deliveredCount initial < MAX_DELIVERIES"
    and n: "nextHandle initial = 1"
    by (simp_all add: initial_def MAX_DELIVERIES_def)
  have o: "isAnimating on_the_way" and f: "frames on_the_way = [(2, order_trip (Finite 0))]"
    using on_the_way_facts by blast+
  note a = single_trip_and_cap [OF reachable.mounted, of "Finite 0" "Finite 0"]
  note b = single_trip_and_cap [OF on_the_way_reachable, of "Finite 20" "Finite 32"]
  from a have "length (frames initial) \<le> 1" by blast
  moreover from a i n have
    "frames (snd (handleOrderClick (Finite 0) initial)) = [(1, order_trip (Finite 0))]"
    by simp
  moreover from b o have "snd (handleOrderClick (Finite 20) on_the_way) = on_the_way" by simp
  moreover from b f have
    "set (map snd (frames (frame (Finite 32) on_the_way))) \<subseteq> {order_trip (Finite 0)}"
    by simp
  ultimately show ?thesis using reachable.mounted on_the_way_reachable o f by blast
qed

text \<open>
  Claim C3. After \<open>MAX_DELIVERIES\<close> (five) consecutive completed dispatches from the
  initial state there are five delivered markers and the tracker is \<open>Exhausted\<close>. From
  then on, whatever events follow and however many, the state never changes again and
  every dispatch request is answered by the notice that the cap is reached.
\<close>

theorem five_dispatches_exhaust:
  assumes "length ds = MAX_DELIVERIES" and "list_all completes ds"
  shows "length (deliveredMarkers (run (concat (map completed_dispatch ds)) initial)) = 5 \<and>
         tracker_state (run (concat (map completed_dispatch ds)) initial) = Exhausted \<and>
         run es (run (concat (map completed_dispatch ds)) initial) =
           run (concat (map completed_dispatch ds)) initial \<and>
         alerts es (run (concat (map completed_dispatch ds)) initial) = map rejected es"
proof -
  let ?s = "run (concat (map completed_dispatch ds)) initial"
  have c: "consistent ?s" by (rule reachable_consistent [OF reachable_from_initial])
  have i: "\<not> isAnimating initial" "deliveredCount initial + length ds \<le> MAX_DELIVERIES"
    using assms(1) by (simp_all add: initial_def)
  from dispatches_run [OF consistent_initial i assms(2)] assms(1)
  have d: "\<not> isAnimating ?s" "deliveredCount ?s = MAX_DELIVERIES"
    by (simp_all add: initial_def)
  from d have full: "MAX_DELIVERIES \<le> deliveredCount ?s" by simp
  from c d have "length (deliveredMarkers ?s) = 5"
    by (simp add: consistent_def MAX_DELIVERIES_def)
  moreover from d have "tracker_state ?s = Exhausted" by (simp add: tracker_state_def)
  moreover note exhausted_run [OF c d(1) full, of es]
  ultimately show ?thesis by simp
qed

theorem five_dispatches_exhaust_witness:
  "length five_trips = MAX_DELIVERIES \<and> list_all completes five_trips \<and>
   length (deliveredMarkers exhausted_sample) = 5 \<and>
   tracker_state exhausted_sample = Exhausted \<and>
   run [Click (Finite 34000), Frame (Finite 34016), Click (Finite 40000)] exhausted_sample =
     exhausted_sample \<and>
   alerts [Click (Finite 34000), Frame (Finite 34016), Click (Finite 40000)] exhausted_sample =
     [Some CapReached, None, Some CapReached]"
proof -
  have h: "length five_trips = MAX_DELIVERIES" "list_all completes five_trips"
    using five_trips_complete by simp_all
  show ?thesis
    using five_dispatches_exhaust
      [OF h, of "[Click (Finite 34000), Frame (Finite 34016), Click (Finite 40000)]"] h
    by (simp add: exhausted_sample_def)
qed

text \<open>
  Claim C4. In every reachable state in which a trip is active (\<open>InFlight\<close>), a dispatch
  request is a silent no-op: no notice is shown and the whole state, with the delivered
  count, the delivered markers and the scheduled callback, stays as it is.
\<close>

theorem dispatch_in_flight_silent:
  assumes "reachable s" and "tracker_state s = InFlight"
  shows "handleOrderClick clock s = (None, s)"
proof -
  from assms(1) have c: "consistent s" by (rule reachable_consistent)
  from assms(2) have a: "isAnimating s" by (simp add: tracker_state_def split: if_splits)
  with c have "deliveredCount s < MAX_DELIVERIES" by (simp add: consistent_def)
  with a show ?thesis by (simp add: handleOrderClick_def)
qed

lemma sample_states:
  "tracker_state initial = Idle \<and> tracker_state on_the_way = InFlight \<and>
   tracker_state exhausted_sample = Exhausted"
  using on_the_way_facts exhausted_sample_facts
  by (simp add: tracker_state_def initial_def MAX_DELIVERIES_def)

theorem dispatch_in_flight_silent_witness:
  "reachable on_the_way \<and> tracker_state on_the_way = InFlight \<and>
   handleOrderClick (Finite 20) on_the_way = (None, on_the_way)"
proof -
  have t: "tracker_state on_the_way = InFlight" using sample_states by blast
  from dispatch_in_flight_silent [OF on_the_way_reachable t, of "Finite 20"]
    on_the_way_reachable t
  show ?thesis by simp
qed

text \<open>
  The specification of the tracker says that a dispatch request during a trip is rejected
  with a notice. The session that dispatches once and then dispatches again while the trip
  is on its way shows no notice for the second request.
\<close>

theorem in_flight_dispatch_shows_no_notice:
  "reachable on_the_way \<and> tracker_state on_the_way = InFlight \<and>
   fst (handleOrderClick (Finite 20) on_the_way) = None"
proof -
  have "tracker_state on_the_way = InFlight" using sample_states by blast
  moreover have "fst (handleOrderClick (Finite 20) on_the_way) = None"
    using on_the_way_facts by (simp add: handleOrderClick_def MAX_DELIVERIES_def)
  ultimately show ?thesis using on_the_way_reachable by simp
qed

text \<open>
  Claim C5, as the code has it. In a reachable state a dispatch request takes the tracker
  from \<open>Idle\<close> to \<open>InFlight\<close> without a notice; while \<open>InFlight\<close> it is rejected as a
  silent no-op (no notice, state unchanged); when \<open>Exhausted\<close> it is rejected as a no-op
  with the notice that the cap is reached.
\<close>

theorem dispatch_by_tracker_state:
  assumes "reachable s"
  shows "case tracker_state s of
           Idle \<Rightarrow> fst (handleOrderClick clock s) = None \<and>
                   tracker_state (snd (handleOrderClick clock s)) = InFlight
         | InFlight \<Rightarrow> handleOrderClick clock s = (None, s)
         | Exhausted \<Rightarrow> handleOrderClick clock s = (Some CapReached, s)"
proof -
  from assms have c: "consistent s" by (rule reachable_consistent)
  show ?thesis
  proof (cases "tracker_state s")
    case Idle
    then have i: "\<not> isAnimating s" "deliveredCount s < MAX_DELIVERIES"
      by (simp_all add: tracker_state_def split: if_splits)
    from click_starts [OF c i, of clock] click_idle [OF c i, of clock] Idle
    show ?thesis by (simp add: in_flight_def tracker_state_def)
  next
    case InFlight
    then have a: "isAnimating s" by (simp add: tracker_state_def split: if_splits)
    with c have "deliveredCount s < MAX_DELIVERIES" by (simp add: consistent_def)
    with a InFlight show ?thesis by (simp add: handleOrderClick_def)
  next
    case Exhausted
    then have "MAX_DELIVERIES \<le> deliveredCount s"
      by (simp add: tracker_state_def split: if_splits)
    with Exhausted show ?thesis by (simp add: handleOrderClick_def)
  qed
qed

theorem dispatch_by_tracker_state_witness:
  "reachable initial \<and> tracker_state initial = Idle \<and>
   fst (handleOrderClick (Finite 0) initial) = None \<and>
   tracker_state (snd (handleOrderClick (Finite 0) initial)) = InFlight \<and>
   reachable on_the_way \<and> tracker_state on_the_way = InFlight \<and>
   handleOrderClick (Finite 20) on_the_way = (None, on_the_way) \<and>
   reachable exhausted_sample \<and> tracker_state exhausted_sample = Exhausted \<and>
   handleOrderClick (Finite 34000) exhausted_sample = (Some CapReached, exhausted_sample)"
proof -
  have t: "tracker_state initial = Idle" "tracker_state on_the_way = InFlight"
    "tracker_state exhausted_sample = Exhausted"
    using sample_states by blast+
  from dispatch_by_tracker_state [OF reachable.mounted, of "Finite 0"]
    dispatch_by_tracker_state [OF on_the_way_reachable, of "Finite 20"]
    dispatch_by_tracker_state [OF exhausted_sample_reachable, of "Finite 34000"]
    reachable.mounted on_the_way_reachable exhausted_sample_reachable t
  show ?thesis by simp
qed

text \<open>
  Claim C8. The list of delivered markers and the delivered count start empty and at 0,
  and in every reachable state the length of the list is the count. A dispatch request
  changes neither. A repaint that ends a trip, which happens only while a trip is
  animating, appends exactly one marker, the destination, and adds exactly one to the
  count; any other repaint changes neither.
\<close>

theorem markers_match_count:
  assumes "reachable s"
  shows "deliveredMarkers initial = [] \<and> deliveredCount initial = 0 \<and>
         length (deliveredMarkers s) = deliveredCount s \<and>
         deliveredCount (snd (handleOrderClick clock s)) = deliveredCount s \<and>
         deliveredMarkers (snd (handleOrderClick clock s)) = deliveredMarkers s \<and>
         (ends_trip now s \<longrightarrow> isAnimating s) \<and>
         deliveredCount (frame now s) =
           (if ends_trip now s then deliveredCount s + 1 else deliveredCount s) \<and>
         deliveredMarkers (frame now s) =
           (if ends_trip now s then deliveredMarkers s @ [ARGENTINA_COORD]
            else deliveredMarkers s)"
proof -
  from assms have c: "consistent s" by (rule reachable_consistent)
  then have l: "length (deliveredMarkers s) = deliveredCount s" by (simp add: consistent_def)
  have f: "deliveredCount (frame now s) =
           (if ends_trip now s then deliveredCount s + 1 else deliveredCount s) \<and>
         deliveredMarkers (frame now s) =
           (if ends_trip now s then deliveredMarkers s @ [ARGENTINA_COORD]
            else deliveredMarkers s)"
    using frame_ends [OF c, of now] frame_goes_on [OF c, of now] by simp
  from l f click_delivery [of clock s] ends_trip_animating [OF c, of now]
  show ?thesis by (simp add: initial_def)
qed

theorem markers_match_count_witness:
  "reachable on_the_way \<and>
   length (deliveredMarkers on_the_way) = deliveredCount on_the_way \<and>
   deliveredCount on_the_way = 0 \<and>
   ends_trip (Finite 6000) on_the_way \<and> isAnimating on_the_way \<and>
   deliveredCount (frame (Finite 6000) on_the_way) = 1 \<and>
   deliveredMarkers (frame (Finite 6000) on_the_way) = [ARGENTINA_COORD] \<and>
   \<not> ends_trip (Finite 32) on_the_way \<and>
   deliveredCount (frame (Finite 32) on_the_way) = 0 \<and>
   deliveredMarkers (frame (Finite 32) on_the_way) = [] \<and>
   deliveredCount (snd (handleOrderClick (Finite 20) on_the_way)) = 0"
proof -
  have v: "deliveredCount on_the_way = 0" "deliveredMarkers on_the_way = []"
    "isAnimating on_the_way"
    using on_the_way_facts by blast+
  have e: "ends_trip (Finite 6000) on_the_way" "\<not> ends_trip (Finite 32) on_the_way"
    using on_the_way_arrival by blast+
  from markers_match_count [OF on_the_way_reachable, of "Finite 20" "Finite 6000"]
    markers_match_count [OF on_the_way_reachable, of "Finite 20" "Finite 32"]
    on_the_way_reachable v e
  show ?thesis by simp
qed

text \<open>
  Claim C9. In every reachable state the moving marker has a position exactly when
  \<open>isAnimating\<close> holds, and outside a trip the moving scale is 1. A dispatch request
  accepted in a state without a trip and below the cap sets \<open>isAnimating\<close> together with
  the position (the origin) and the scale 1; any other request changes nothing. A repaint
  that ends a trip clears the position, resets the scale to 1 and clears \<open>isAnimating\<close>
  together; a repaint during a trip that does not end it leaves \<open>isAnimating\<close> set and
  the marker positioned.
\<close>

theorem moving_marker_iff_animating:
  assumes "reachable s"
  shows "(movingPosition s \<noteq> None) = isAnimating s \<and>
         (\<not> isAnimating s \<longrightarrow> movingPosition s = None \<and> movingScale s = Finite 1) \<and>
         (\<not> isAnimating s \<and> deliveredCount s < MAX_DELIVERIES \<longrightarrow>
            isAnimating (snd (handleOrderClick clock s)) \<and>
            movingPosition (snd (handleOrderClick clock s)) = Some INDIA_COORD \<and>
            movingScale (snd (handleOrderClick clock s)) = Finite 1) \<and>
         (isAnimating s \<or> MAX_DELIVERIES \<le> deliveredCount s \<longrightarrow>
            snd (handleOrderClick clock s) = s) \<and>
         (ends_trip now s \<longrightarrow>
            isAnimating s \<and> \<not> isAnimating (frame now s) \<and>
            movingPosition (frame now s) = None \<and> movingScale (frame now s) = Finite 1) \<and>
         (isAnimating s \<and> \<not> ends_trip now s \<longrightarrow>
            isAnimating (frame now s) \<and> movingPosition (frame now s) \<noteq> None)"
proof -
  from assms have c: "consistent s" by (rule reachable_consistent)
  from consistent_moving [OF c] have 1: "(movingPosition s \<noteq> None) = isAnimating s"
    and 2: "\<not> isAnimating s \<longrightarrow> movingPosition s = None \<and> movingScale s = Finite 1"
    by blast+
  have 3: "\<not> isAnimating s \<and> deliveredCount s < MAX_DELIVERIES \<longrightarrow>
            isAnimating (snd (handleOrderClick clock s)) \<and>
            movingPosition (snd (handleOrderClick clock s)) = Some INDIA_COORD \<and>
            movingScale (snd (handleOrderClick clock s)) = Finite 1"
    using click_sets_marker [OF c, of clock] by blast
  have 4: "isAnimating s \<or> MAX_DELIVERIES \<le> deliveredCount s \<longrightarrow>
            snd (handleOrderClick clock s) = s"
    using click_rejected [of s clock] by blast
  have 5: "ends_trip now s \<longrightarrow>
            isAnimating s \<and> \<not> isAnimating (frame now s) \<and>
            movingPosition (frame now s) = None \<and> movingScale (frame now s) = Finite 1"
    using frame_ends [OF c, of now] ends_trip_animating [OF c, of now] by blast
  have 6: "isAnimating s \<and> \<not> ends_trip now s \<longrightarrow>
            isAnimating (frame now s) \<and> movingPosition (frame now s) \<noteq> None"
    using frame_goes_on [OF c, of now] by blast
  from 1 2 3 4 5 6 show ?thesis by blast
qed

theorem moving_marker_iff_animating_witness:
  "reachable initial \<and> \<not> isAnimating initial \<and> deliveredCount initial < MAX_DELIVERIES \<and>
   movingPosition initial = None \<and>
   isAnimating (snd (handleOrderClick (Finite 0) initial)) \<and>
   movingPosition (snd (handleOrderClick (Finite 0) initial)) = Some INDIA_COORD \<and>
   movingScale (snd (handleOrderClick (Finite 0) initial)) = Finite 1 \<and>
   reachable on_the_way \<and> isAnimating on_the_way \<and> movingPosition on_the_way \<noteq> None \<and>
   snd (handleOrderClick (Finite 20) on_the_way) = on_the_way \<and>
   ends_trip (Finite 6000) on_the_way \<and>
   \<not> isAnimating (frame (Finite 6000) on_the_way) \<and>
   movingPosition (frame (Finite 6000) on_the_way) = None \<and>
   movingScale (frame (Finite 6000) on_the_way) = Finite 1 \<and>
   \<not> ends_trip (Finite 32) on_the_way \<and>
   isAnimating (frame (Finite 32) on_the_way) \<and>
   movingPosition (frame (Finite 32) on_the_way) \<noteq> None"
proof -
  have i: "\<not> isAnimating initial" "deliveredCount initial < MAX_DELIVERIES"
    by (simp_all add: initial_def MAX_DELIVERIES_def)
  have o: "isAnimating on_the_way" using on_the_way_facts by blast
  have e: "ends_trip (Finite 6000) on_the_way" "\<not> ends_trip (Finite 32) on_the_way"
    using on_the_way_arrival by blast+
  from moving_marker_iff_animating [OF reachable.mounted, of "Finite 0" "Finite 0"]
    moving_marker_iff_animating [OF on_the_way_reachable, of "Finite 20" "Finite 6000"]
    moving_marker_iff_animating [OF on_the_way_reachable, of "Finite 20" "Finite 32"]
    reachable.mounted on_the_way_reachable i o e
  show ?thesis by blast
qed

text \<open>
  Claim C10. In every reachable state \<open>showIdle\<close> holds exactly when no trip is animating
  and the delivered count is below \<open>MAX_DELIVERIES\<close>; so the third guard of
  \<open>handleOrderClick\<close> never fires: no dispatch request in a reachable state shows the
  notice that no biryani is waiting.
\<close>

theorem idle_guard_never_fires:
  assumes "reachable s"
  shows "showIdle s = (\<not> isAnimating s \<and> deliveredCount s < MAX_DELIVERIES) \<and>
         fst (handleOrderClick clock s) \<noteq> Some NoneWaiting"
proof -
  from assms have "consistent s" by (rule reachable_consistent)
  then have i: "showIdle s = (\<not> isAnimating s \<and> deliveredCount s < MAX_DELIVERIES)"
    by (simp add: consistent_def)
  then have "fst (handleOrderClick clock s) \<noteq> Some NoneWaiting"
    by (auto simp: handleOrderClick_def)
  with i show ?thesis by simp
qed

theorem idle_guard_never_fires_witness:
  "reachable exhausted_sample \<and> \<not> showIdle exhausted_sample \<and>
   deliveredCount exhausted_sample = MAX_DELIVERIES \<and>
   fst (handleOrderClick (Finite 34000) exhausted_sample) \<noteq> Some NoneWaiting \<and>
   reachable on_the_way \<and> \<not> showIdle on_the_way \<and> isAnimating on_the_way \<and>
   fst (handleOrderClick (Finite 20) on_the_way) \<noteq> Some NoneWaiting"
proof -
  have v: "deliveredCount exhausted_sample = MAX_DELIVERIES" "isAnimating on_the_way"
    using exhausted_sample_facts on_the_way_facts by (simp_all add: MAX_DELIVERIES_def)
  from idle_guard_never_fires [OF exhausted_sample_reachable, of "Finite 34000"]
    idle_guard_never_fires [OF on_the_way_reachable, of "Finite 20"]
    exhausted_sample_reachable on_the_way_reachable v
  show ?thesis by simp
qed

text \<open>
  Both facts need reachability. In a state that no session reaches the third guard does
  fire, and the cap guard, which comes first, answers a request during a trip.
\<close>

lemma idle_guard_fires_outside:
  "handleOrderClick clock (initial\<lparr>showIdle := False\<rparr>) =
     (Some NoneWaiting, initial\<lparr>showIdle := False\<rparr>)"
  by (simp add: handleOrderClick_def initial_def MAX_DELIVERIES_def)

lemma cap_guard_comes_first:
  "handleOrderClick clock (on_the_way\<lparr>deliveredCount := 5\<rparr>) =
     (Some CapReached, on_the_way\<lparr>deliveredCount := 5\<rparr>)"
  by (simp add: handleOrderClick_def MAX_DELIVERIES_def)

end
